theory Spec2Isabelle
  imports
    Main
    "HOL-Library.Char_ord"
    "HOL-Library.List_Lexorder"
    "HOL-Library.Product_Lexorder"
    "HOL-Library.Multiset"
begin

section \<open>The Python run time: strings, integers, indexing\<close>

text \<open>
  A Python \<open>str\<close> is a \<^typ>\<open>string\<close>: the list of its characters, ordered as Python
  orders them (character by character, a proper prefix first).  The text of a file is
  taken in its UTF-8 encoding, whose byte order is the order of the code points; the
  digits and spaces that \<open>int\<close> accepts are the ASCII ones.
\<close>

definition TAB :: char where
  "TAB = CHR 0x09"

definition NL :: char where
  "NL = CHR 0x0A"

definition is_space :: "char \<Rightarrow> bool" where
  "is_space c = (c \<in> {CHR 0x09, CHR 0x0A, CHR 0x0B, CHR 0x0C, CHR 0x0D, CHR '' ''})"

definition is_digit :: "char \<Rightarrow> bool" where
  "is_digit c = (c \<in> set ''0123456789'')"

definition digit_val :: "char \<Rightarrow> nat" where
  "digit_val c = of_char c - 48"

definition digit_char :: "nat \<Rightarrow> char" where
  "digit_char d = char_of (48 + d)"

text \<open>
  \<open>int(s)\<close> of a string, base 10: blanks around the numeral are dropped, one sign may
  come first, then digits, where one underscore may stand between two digits.  Anything
  else raises \<open>ValueError\<close>, here \<open>None\<close>.
\<close>

fun digits_acc :: "nat \<Rightarrow> string \<Rightarrow> nat option" where
  "digits_acc acc [] = Some acc"
| "digits_acc acc (c # cs) =
     (if is_digit c then digits_acc (10 * acc + digit_val c) cs
      else if c = CHR ''_'' \<and> cs \<noteq> [] \<and> is_digit (hd cs) then digits_acc acc cs
      else None)"

definition parse_digits :: "string \<Rightarrow> nat option" where
  "parse_digits s = (if s \<noteq> [] \<and> is_digit (hd s) then digits_acc 0 s else None)"

definition strip :: "string \<Rightarrow> string" where
  "strip s = rev (dropWhile is_space (rev (dropWhile is_space s)))"

definition py_int :: "string \<Rightarrow> int option" where
  "py_int s =
     (case strip s of
        [] \<Rightarrow> None
      | c # cs \<Rightarrow>
          if c = CHR ''-'' then map_option (\<lambda>n. - int n) (parse_digits cs)
          else if c = CHR ''+'' then map_option int (parse_digits cs)
          else map_option int (parse_digits (c # cs)))"

text \<open>\<open>str(i)\<close> of an integer: its decimal numeral, with a minus sign when negative.\<close>

fun nat_digits :: "nat \<Rightarrow> string" where
  "nat_digits n =
     (if n < 10 then [digit_char n] else nat_digits (n div 10) @ [digit_char (n mod 10)])"

declare nat_digits.simps [simp del]

definition py_str :: "int \<Rightarrow> string" where
  "py_str i = (if i < 0 then CHR ''-'' # nat_digits (nat (- i)) else nat_digits (nat i))"

text \<open>
  The exceptions that leave \<open>MergeAdd\<close>: the two that Python raises by itself, and the
  exit of \<open>whine(message)\<close>, which writes the message to stderr and ends the process with
  status 1.
\<close>

datatype error = IndexError | ValueError | SystemExit string

text \<open>
  \<open>xs[i]\<close>: a position from the front when \<open>i\<close> is not negative, from the end when it
  is, and \<open>IndexError\<close> outside \<open>-len(xs) .. len(xs) - 1\<close>.
\<close>

definition py_index :: "nat \<Rightarrow> int \<Rightarrow> nat option" where
  "py_index n i =
     (if 0 \<le> i \<and> i < int n then Some (nat i)
      else if - int n \<le> i \<and> i < 0 then Some (nat (int n + i))
      else None)"

definition getitem :: "'a list \<Rightarrow> int \<Rightarrow> error + 'a" where
  "getitem xs i = (case py_index (length xs) i of None \<Rightarrow> Inl IndexError | Some k \<Rightarrow> Inr (xs ! k))"

definition setitem :: "'a list \<Rightarrow> int \<Rightarrow> 'a \<Rightarrow> error + 'a list" where
  "setitem xs i v =
     (case py_index (length xs) i of None \<Rightarrow> Inl IndexError | Some k \<Rightarrow> Inr (xs[k := v]))"

text \<open>\<open>s.split('\t')\<close> and \<open>'\t'.join(fields)\<close>.\<close>

fun split_tab :: "string \<Rightarrow> string list" where
  "split_tab [] = [[]]"
| "split_tab (c # cs) =
     (if c = TAB then [] # split_tab cs
      else (c # hd (split_tab cs)) # tl (split_tab cs))"

fun join_tab :: "string list \<Rightarrow> string" where
  "join_tab [] = []"
| "join_tab [f] = f"
| "join_tab (f # g # fs) = f @ TAB # join_tab (g # fs)"

section \<open>merge.py: class MergeAdd\<close>

record MergeAdd =
  intkeys :: "int list"
  strkeys :: "int list"
  sums :: "int list"

subsection \<open>compare_fields\<close>

text \<open>
  The two loops of \<open>compare_fields\<close>.  \<open>Some r\<close> is a \<open>return r\<close> from inside the loop,
  \<open>None\<close> is the loop running to its end.  The operands are evaluated left to right, so
  the first record is indexed and parsed before the second.
\<close>

fun compare_intkeys :: "int list \<Rightarrow> string list \<Rightarrow> string list \<Rightarrow> error + int option" where
  "compare_intkeys [] one_fields two_fields = Inr None"
| "compare_intkeys (index # rest) one_fields two_fields =
     (case getitem one_fields index of Inl e \<Rightarrow> Inl e | Inr x \<Rightarrow>
      case py_int x of None \<Rightarrow> Inl ValueError | Some m \<Rightarrow>
      case getitem two_fields index of Inl e \<Rightarrow> Inl e | Inr y \<Rightarrow>
      case py_int y of None \<Rightarrow> Inl ValueError | Some n \<Rightarrow>
        if m < n then Inr (Some (- 1))
        else if m > n then Inr (Some 1)
        else compare_intkeys rest one_fields two_fields)"

fun compare_strkeys :: "int list \<Rightarrow> string list \<Rightarrow> string list \<Rightarrow> error + int option" where
  "compare_strkeys [] one_fields two_fields = Inr None"
| "compare_strkeys (index # rest) one_fields two_fields =
     (case getitem one_fields index of Inl e \<Rightarrow> Inl e | Inr x \<Rightarrow>
      case getitem two_fields index of Inl e \<Rightarrow> Inl e | Inr y \<Rightarrow>
        if x < y then Inr (Some (- 1))
        else if x > y then Inr (Some 1)
        else compare_strkeys rest one_fields two_fields)"

definition compare_fields :: "MergeAdd \<Rightarrow> string list \<Rightarrow> string list \<Rightarrow> error + int" where
  "compare_fields M one_fields two_fields =
     (case compare_intkeys (intkeys M) one_fields two_fields of
        Inl e \<Rightarrow> Inl e
      | Inr (Some r) \<Rightarrow> Inr r
      | Inr None \<Rightarrow>
     (case compare_strkeys (strkeys M) one_fields two_fields of
        Inl e \<Rightarrow> Inl e
      | Inr (Some r) \<Rightarrow> Inr r
      | Inr None \<Rightarrow>
          if length one_fields > length two_fields then Inr 1
          else if length one_fields < length two_fields then Inr (- 1)
          else Inr 0))"

subsection \<open>sum_fields\<close>

definition differing_msg :: "nat \<Rightarrow> nat \<Rightarrow> string" where
  "differing_msg one two =
     ''Lines in files with differing number of fields '' @ py_str (int one) @ '', ''
       @ py_str (int two) @ [NL]"

definition bad_line_msg :: "string \<Rightarrow> string \<Rightarrow> string" where
  "bad_line_msg one two = ''Bad line in files, trying to add '' @ one @ '', '' @ two @ [NL]"

text \<open>
  The loop over \<open>self.sums\<close>.  A \<open>ValueError\<close> of either \<open>int\<close> is caught and turned
  into \<open>whine\<close>, whose message reads both fields again; an \<open>IndexError\<close> is not caught.
  The list \<open>infields\<close> is updated in place, so a later index reads the sums written by
  an earlier one.
\<close>

fun sum_loop :: "int list \<Rightarrow> string list \<Rightarrow> string list \<Rightarrow> error + string list" where
  "sum_loop [] infields to_add_fields = Inr infields"
| "sum_loop (index # rest) infields to_add_fields =
     (case getitem infields index of Inl e \<Rightarrow> Inl e | Inr x \<Rightarrow>
      case py_int x of
        None \<Rightarrow>
          (case getitem to_add_fields index of
             Inl e \<Rightarrow> Inl e
           | Inr y \<Rightarrow> Inl (SystemExit (bad_line_msg x y)))
      | Some m \<Rightarrow>
      case getitem to_add_fields index of Inl e \<Rightarrow> Inl e | Inr y \<Rightarrow>
      case py_int y of
        None \<Rightarrow> Inl (SystemExit (bad_line_msg x y))
      | Some n \<Rightarrow>
      case setitem infields index (py_str (m + n)) of
        Inl e \<Rightarrow> Inl e
      | Inr infields' \<Rightarrow> sum_loop rest infields' to_add_fields)"

definition sum_fields :: "MergeAdd \<Rightarrow> string list \<Rightarrow> string list \<Rightarrow> error + string list" where
  "sum_fields M infields to_add_fields =
     (if length infields \<noteq> length to_add_fields
      then Inl (SystemExit (differing_msg (length infields) (length to_add_fields)))
      else sum_loop (sums M) infields to_add_fields)"

subsection \<open>do_merge\<close>

text \<open>
  A file open for reading is the list of its lines not yet read, each without its line
  end: in text mode a line holds no newline but its last character, so
  \<open>readline().rstrip('\n')\<close> is the line itself, and the empty string at the end of the
  file.  The output file is the list of the lines written to it, each by
  \<open>output.write(line + '\n')\<close>.
\<close>

definition readline_rstrip :: "string list \<Rightarrow> string \<times> string list" where
  "readline_rstrip fh = (case fh of [] \<Rightarrow> ([], []) | l # rest \<Rightarrow> (l, rest))"

text \<open>
  The main loop.  It returns the exception that ended it, or the variables
  \<open>(have_fields, to_merge_fields, have, to_merge)\<close> at its exit, together with the
  output written so far.
\<close>

function merge_loop ::
  "MergeAdd \<Rightarrow> string list \<Rightarrow> string list \<Rightarrow> string list \<Rightarrow> string list \<Rightarrow> string list
    \<Rightarrow> (error + string list \<times> string list \<times> string list \<times> string list) \<times> string list"
where
  "merge_loop M have_fields to_merge_fields have to_merge output =
     (if have_fields \<noteq> [[]] \<and> to_merge_fields \<noteq> [[]] then
        (case compare_fields M have_fields to_merge_fields of
           Inl e \<Rightarrow> (Inl e, output)
         | Inr result \<Rightarrow>
             if result = 0 then
               (case sum_fields M have_fields to_merge_fields of
                  Inl e \<Rightarrow> (Inl e, output)
                | Inr have_fields' \<Rightarrow>
                    merge_loop M have_fields' (split_tab (fst (readline_rstrip to_merge)))
                      have (snd (readline_rstrip to_merge)) output)
             else if result < 0 then
               merge_loop M (split_tab (fst (readline_rstrip have))) to_merge_fields
                 (snd (readline_rstrip have)) to_merge (output @ [join_tab have_fields])
             else
               merge_loop M have_fields (split_tab (fst (readline_rstrip to_merge)))
                 have (snd (readline_rstrip to_merge)) (output @ [join_tab to_merge_fields]))
      else (Inr (have_fields, to_merge_fields, have, to_merge), output))"
  by pat_completeness auto
termination
  by (relation "measure (\<lambda>(M, hf, tf, have, tm, out).
        length have + length tm + (if hf = [[]] then 0 else 1) + (if tf = [[]] then 0 else 1))")
     (auto simp: readline_rstrip_def split: list.splits)

declare merge_loop.simps [simp del]

text \<open>The two loops after it: \<open>while line: output.write(line + '\n'); line = ...\<close>.\<close>

function drain :: "string \<Rightarrow> string list \<Rightarrow> string list \<Rightarrow> string list" where
  "drain line fh output =
     (if line \<noteq> [] then
        drain (fst (readline_rstrip fh)) (snd (readline_rstrip fh)) (output @ [line])
      else output)"
  by pat_completeness auto
termination
  by (relation "measure (\<lambda>(line, fh, out). length fh + (if line = [] then 0 else 1))")
     (auto simp: readline_rstrip_def split: list.splits)

declare drain.simps [simp del]

definition do_merge ::
  "MergeAdd \<Rightarrow> string list \<Rightarrow> string list \<Rightarrow> string list \<Rightarrow> error option \<times> string list"
where
  "do_merge M have to_merge output =
     (let have_fields = split_tab (fst (readline_rstrip have));
          to_merge_fields = split_tab (fst (readline_rstrip to_merge))
      in case merge_loop M have_fields to_merge_fields
                (snd (readline_rstrip have)) (snd (readline_rstrip to_merge)) output of
           (Inl e, out) \<Rightarrow> (Some e, out)
         | (Inr (have_fields', to_merge_fields', have', to_merge'), out) \<Rightarrow>
             (None, drain (join_tab to_merge_fields') to_merge'
                      (drain (join_tab have_fields') have' out)))"

section \<open>Sort keys\<close>

definition field :: "string list \<Rightarrow> int \<Rightarrow> string" where
  "field r i = (case getitem r i of Inr x \<Rightarrow> x | Inl e \<Rightarrow> [])"

definition int_field :: "string list \<Rightarrow> int \<Rightarrow> int" where
  "int_field r i = (case py_int (field r i) of Some n \<Rightarrow> n | None \<Rightarrow> 0)"

definition keys_ok :: "MergeAdd \<Rightarrow> string list \<Rightarrow> bool" where
  "keys_ok M r =
     ((\<forall>i\<in>set (intkeys M). py_index (length r) i \<noteq> None \<and> py_int (field r i) \<noteq> None) \<and>
      (\<forall>i\<in>set (strkeys M). py_index (length r) i \<noteq> None))"

definition rec_key :: "MergeAdd \<Rightarrow> string list \<Rightarrow> int list \<times> string list \<times> nat" where
  "rec_key M r = (map (int_field r) (intkeys M), map (field r) (strkeys M), length r)"

definition three_way :: "'a::linorder \<Rightarrow> 'a \<Rightarrow> int" where
  "three_way x y = (if x < y then - 1 else if y < x then 1 else 0)"

section \<open>The merge as a function on lists of records\<close>

text \<open>
  \<open>merge_all\<close> is the main loop followed by the two loops after it.  \<open>read_run\<close> is
  what \<open>do_merge\<close> reads of a file: the records of its lines up to the first empty one.
  \<open>merge_runs\<close> is the recursion that \<open>do_merge\<close> performs on the two lists of records;
  lemma \<open>do_merge_runs\<close> below proves that it computes the output of \<open>do_merge\<close>.
\<close>

definition merge_all ::
  "MergeAdd \<Rightarrow> string list \<Rightarrow> string list \<Rightarrow> string list \<Rightarrow> string list \<Rightarrow> string list
    \<Rightarrow> error option \<times> string list"
where
  "merge_all M have_fields to_merge_fields have to_merge output =
     (case merge_loop M have_fields to_merge_fields have to_merge output of
        (Inl e, out) \<Rightarrow> (Some e, out)
      | (Inr (have_fields', to_merge_fields', have', to_merge'), out) \<Rightarrow>
          (None, drain (join_tab to_merge_fields') to_merge'
                   (drain (join_tab have_fields') have' out)))"

definition read_run :: "string list \<Rightarrow> string list list" where
  "read_run fh = map split_tab (takeWhile (\<lambda>l. l \<noteq> []) fh)"

definition current_run :: "string list \<Rightarrow> string list \<Rightarrow> string list list" where
  "current_run cur fh = (if cur = [[]] then [] else cur # read_run fh)"

function merge_runs ::
  "MergeAdd \<Rightarrow> string list list \<Rightarrow> string list list \<Rightarrow> error option \<times> string list list"
where
  "merge_runs M [] bs = (None, bs)"
| "merge_runs M (a # as) [] = (None, a # as)"
| "merge_runs M (a # as) (b # bs) =
     (case compare_fields M a b of
        Inl e \<Rightarrow> (Some e, [])
      | Inr r \<Rightarrow>
          if r = 0 then
            (case sum_fields M a b of
               Inl e \<Rightarrow> (Some e, [])
             | Inr a' \<Rightarrow> merge_runs M (a' # as) bs)
          else if r < 0 then apsnd ((#) a) (merge_runs M as (b # bs))
          else apsnd ((#) b) (merge_runs M (a # as) bs))"
  by pat_completeness auto
termination
  by (relation "measure (\<lambda>(M, as, bs). length as + length bs)") auto

section \<open>Runs: well-formed records, roles and order\<close>

definition wf_rec :: "string list \<Rightarrow> bool" where
  "wf_rec r = (r \<noteq> [] \<and> (\<forall>f\<in>set r. TAB \<notin> set f))"

definition roles_ok :: "MergeAdd \<Rightarrow> bool" where
  "roles_ok M =
     ((\<forall>i\<in>set (intkeys M @ strkeys M @ sums M). 0 \<le> i) \<and>
      (\<forall>i\<in>set (sums M). i \<notin> set (intkeys M @ strkeys M)))"

definition rec_le :: "MergeAdd \<Rightarrow> string list \<Rightarrow> string list \<Rightarrow> bool" where
  "rec_le M a b = (case compare_fields M a b of Inl e \<Rightarrow> False | Inr r \<Rightarrow> r \<le> 0)"

definition sorted_run :: "MergeAdd \<Rightarrow> string list \<Rightarrow> bool" where
  "sorted_run M ls = sorted_wrt (rec_le M) (map split_tab ls)"

definition keyed_run :: "MergeAdd \<Rightarrow> string list \<Rightarrow> bool" where
  "keyed_run M ls = (\<forall>l\<in>set ls. keys_ok M (split_tab l))"

section \<open>The algorithm of the specification\<close>

text \<open>
  Section 4.3 of the specification, to be compared with \<open>do_merge\<close>: on two lists of
  records, when the two current records compare 0, their sum is emitted and both inputs
  advance; otherwise the smaller record is emitted and its input advances; what is left
  of one input when the other ends is emitted as it is.  \<open>rec_lt\<close> says that a record
  compares below another.
\<close>

definition rec_lt :: "MergeAdd \<Rightarrow> string list \<Rightarrow> string list \<Rightarrow> bool" where
  "rec_lt M a b = (case compare_fields M a b of Inl e \<Rightarrow> False | Inr r \<Rightarrow> r < 0)"

fun merge_advance_both ::
  "MergeAdd \<Rightarrow> string list list \<Rightarrow> string list list \<Rightarrow> error option \<times> string list list"
where
  "merge_advance_both M [] bs = (None, bs)"
| "merge_advance_both M (a # as) [] = (None, a # as)"
| "merge_advance_both M (a # as) (b # bs) =
     (case compare_fields M a b of
        Inl e \<Rightarrow> (Some e, [])
      | Inr r \<Rightarrow>
          if r = 0 then
            (case sum_fields M a b of
               Inl e \<Rightarrow> (Some e, [])
             | Inr s \<Rightarrow> apsnd ((#) s) (merge_advance_both M as bs))
          else if r < 0 then apsnd ((#) a) (merge_advance_both M as (b # bs))
          else apsnd ((#) b) (merge_advance_both M (a # as) bs))"

section \<open>dump_merge_watchlist_mlr.py\<close>


definition QUOTE :: char where
  "QUOTE = CHR 0x27"

text \<open>\<open>sep.join(xs)\<close>, \<open>s.replace(old, new, 1)\<close> and \<open>os.path.join(a, b)\<close> on POSIX.\<close>

fun join_with :: "string \<Rightarrow> string list \<Rightarrow> string" where
  "join_with sep [] = []"
| "join_with sep [x] = x"
| "join_with sep (x # y # xs) = x @ sep @ join_with sep (y # xs)"

fun replace_first :: "string \<Rightarrow> string \<Rightarrow> string \<Rightarrow> string" where
  "replace_first old new [] = (if old = [] then new else [])"
| "replace_first old new (c # cs) =
     (if take (length old) (c # cs) = old then new @ drop (length old) (c # cs)
      else c # replace_first old new cs)"

definition path_join :: "string \<Rightarrow> string \<Rightarrow> string" where
  "path_join a b =
     (if b \<noteq> [] \<and> hd b = CHR ''/'' then b
      else if a = [] \<or> last a = CHR ''/'' then a @ b
      else a @ ''/'' @ b)"

text \<open>
  What the script does to the world, in the order in which it does it: a call of
  \<open>print\<close> with its arguments, a query sent to the database by
  \<open>dbserver.run_sql_and_get_output\<close>, a shell command handed to \<open>run_without_output\<close>
  (which runs it up to \<open>maxtries\<close> times), and the three operations on files.
\<close>

datatype effect =
    Print "string list"
  | RunSql string
  | RunCommand string
  | CreateEmptyFile string
  | Move string string
  | Unlink string

datatype dump_error = BackupError string | LinesIndexError | Exit1

text \<open>
  The value of \<open>dbserver.build_sql_command\<close>: a string, or a list whose elements are
  strings or lists of strings.
\<close>

datatype sql_command = CmdStr string | CmdList "(string + string list) list"

text \<open>
  The collaborators that are not part of the repository.  \<open>sql_output q\<close> is the list
  of the lines of what the database answers to \<open>q\<close> (\<open>results.splitlines()\<close>), \<open>None\<close>
  when the answer is empty or \<open>None\<close>.  \<open>command_succeeds tr c\<close> says whether the shell
  command \<open>c\<close>, run after the effects \<open>tr\<close>, returns 0 within the tries it is given.  The
  operations on files are taken to succeed.
\<close>

record world =
  sql_output :: "string \<Rightarrow> string list option"
  build_sql_command :: "string \<Rightarrow> string \<Rightarrow> sql_command"
  command_succeeds :: "effect list \<Rightarrow> string \<Rightarrow> bool"

text \<open>
  The objects of the script: the directory of the temporary files, the batch size
  (\<open>int(self.batchsize)\<close>), the name of the database of the wiki and the three
  executables of \<open>wiki.config\<close>.
\<close>

record dumper =
  outdir :: string
  batchsize :: int
  db_name :: string
  gzip :: string
  sort_exe :: string
  mlr :: string

type_synonym 'a action = "effect list \<Rightarrow> (dump_error + 'a) \<times> effect list"

definition run_without_output :: "world \<Rightarrow> string \<Rightarrow> bool \<Rightarrow> unit action" where
  "run_without_output W command verbose tr =
     (let tr1 = tr @ (if verbose then [Print [''command to be run with no output: '', command]]
                      else [])
      in if command_succeeds W tr1 command then (Inr (), tr1 @ [RunCommand command])
         else (Inl (BackupError command), tr1 @ [RunCommand command]))"

subsection \<open>MergeAdder.merge\<close>

definition merge_command :: "dumper \<Rightarrow> string \<Rightarrow> string \<Rightarrow> string \<Rightarrow> string" where
  "merge_command D merge_into to_merge merged_path =
     sort_exe D @ '' -t$'' @ [QUOTE, TAB, QUOTE] @ '' -k1n -k2  -m '' @
     ''<('' @ gzip D @ '' -dc '' @ merge_into @ '') <('' @ gzip D @ '' -dc '' @ to_merge @ '') '' @
     '' |  '' @ (mlr D @ '' --tsvlite -N '') @ '' stats1 -g 1,2 -f 3 -a sum '' @
     '' | '' @ gzip D @ '' > '' @ merged_path"

definition MergeAdder_merge ::
  "dumper \<Rightarrow> world \<Rightarrow> string \<Rightarrow> string \<Rightarrow> string \<Rightarrow> bool \<Rightarrow> bool \<Rightarrow> unit action"
where
  "MergeAdder_merge D W merge_into to_merge merged_path verbose dryrun tr =
     (let command = merge_command D merge_into to_merge merged_path
      in if dryrun then (Inr (), tr @ [Print [''would run command:'', command]])
         else run_without_output W command verbose tr)"

subsection \<open>QueryRunner\<close>

definition sql_command_string :: "sql_command \<Rightarrow> string" where
  "sql_command_string command =
     (case command of
        CmdStr s \<Rightarrow> s
      | CmdList elements \<Rightarrow>
          replace_first ''/bin/mysql'' ''/bin/mysql -N''
            (join_with '' | ''
               (map (\<lambda>element. case element of Inl s \<Rightarrow> s | Inr l \<Rightarrow> join_with '' '' l)
                  elements)))"

definition do_one_query ::
  "dumper \<Rightarrow> world \<Rightarrow> string \<Rightarrow> string \<Rightarrow> bool \<Rightarrow> bool \<Rightarrow> unit action"
where
  "do_one_query D W query outpath verbose dryrun tr =
     (let pipeto = gzip D @ '' > '' @ outpath;
          command = sql_command_string (build_sql_command W query pipeto)
      in if dryrun then (Inr (), tr @ [Print [''Would run:'', command]])
         else run_without_output W command verbose
                (tr @ (if verbose then [Print [''Running'', command]] else [])))"

definition isdigit :: "string \<Rightarrow> bool" where
  "isdigit s = (s \<noteq> [] \<and> (\<forall>c\<in>set s. is_digit c))"

definition get_max_id :: "world \<Rightarrow> string \<Rightarrow> string \<Rightarrow> int option action" where
  "get_max_id W fieldname tablename tr =
     (let query = ''select MAX('' @ fieldname @ '') from '' @ tablename @ '';'';
          tr1 = tr @ [RunSql query]
      in case sql_output W query of
           None \<Rightarrow> (Inr None, tr1)
         | Some lines \<Rightarrow>
             (case lines of
                [] \<Rightarrow> (Inr None, tr1)
              | [l0] \<Rightarrow> (Inl LinesIndexError, tr1)
              | l0 # l1 # rest \<Rightarrow>
                  if l1 \<noteq> [] then
                    (if \<not> isdigit l1 then (Inr None, tr1) else (Inr (py_int l1), tr1))
                  else (Inr None, tr1)))"

subsection \<open>WatchlistDumper.dump_merge_batch\<close>

definition dump_query :: "int \<Rightarrow> int \<Rightarrow> string" where
  "dump_query start end_row =
     [QUOTE] @ ''select wl_namespace, wl_title, COUNT(*)  FROM watchlist WHERE '' @
     ''wl_id >= '' @ py_str start @ '' AND wl_id < '' @ py_str end_row @
     '' GROUP BY wl_namespace, wl_title '' @
     ''ORDER BY wl_namespace, wl_title ASC'' @ [QUOTE]"

definition dumped_path :: "dumper \<Rightarrow> string" where
  "dumped_path D = path_join (outdir D) (db_name D @ ''-watchlist-dumped.gz'')"

definition merged_path :: "dumper \<Rightarrow> string" where
  "merged_path D = path_join (outdir D) (db_name D @ ''-watchlist-merged.gz'')"

text \<open>
  The body of the loop of \<open>dump_merge_batch\<close>: one partition is dumped and merged
  into the file at \<open>merge_into_path\<close>.
\<close>

definition batch_step ::
  "dumper \<Rightarrow> world \<Rightarrow> string \<Rightarrow> bool \<Rightarrow> bool \<Rightarrow> int \<Rightarrow> unit action"
where
  "batch_step D W merge_into_path verbose dryrun startrow tr =
     (let end_row = startrow + batchsize D;
          query = dump_query startrow end_row
      in case do_one_query D W query (dumped_path D) verbose dryrun tr of
           (Inl e, tr1) \<Rightarrow> (Inl e, tr1)
         | (Inr u, tr1) \<Rightarrow>
             (case MergeAdder_merge D W merge_into_path (dumped_path D) (merged_path D)
                     verbose dryrun tr1 of
                (Inl e, tr2) \<Rightarrow> (Inl e, tr2)
              | (Inr u, tr2) \<Rightarrow>
                  (Inr (), tr2 @ (if \<not> dryrun then [Move (merged_path D) merge_into_path]
                                  else []))))"

text \<open>The loop; it returns \<open>startrow\<close> and \<open>index\<close> at its exit.\<close>

function batch_loop ::
  "dumper \<Rightarrow> world \<Rightarrow> int \<Rightarrow> int \<Rightarrow> string \<Rightarrow> bool \<Rightarrow> bool \<Rightarrow> int \<Rightarrow> int
    \<Rightarrow> (int \<times> int) action"
where
  "batch_loop D W cnt maxid merge_into_path verbose dryrun startrow index tr =
     (if startrow < maxid \<and> index < cnt then
        (case batch_step D W merge_into_path verbose dryrun startrow tr of
           (Inl e, tr1) \<Rightarrow> (Inl e, tr1)
         | (Inr u, tr1) \<Rightarrow>
             batch_loop D W cnt maxid merge_into_path verbose dryrun
               (startrow + batchsize D) (index + 1) tr1)
      else (Inr (startrow, index), tr))"
  by pat_completeness auto
termination
  by (relation "measure (\<lambda>(D, W, cnt, maxid, p, v, d, startrow, index, tr).
        nat (cnt - index))") auto

declare batch_loop.simps [simp del]

definition dump_merge_batch ::
  "dumper \<Rightarrow> world \<Rightarrow> int \<Rightarrow> int \<Rightarrow> int \<Rightarrow> string \<Rightarrow> bool \<Rightarrow> bool \<Rightarrow> int option action"
where
  "dump_merge_batch D W cnt startrow maxid merge_into_path verbose dryrun tr =
     (let index = 1;
          tr0 = tr @ (if \<not> dryrun then [CreateEmptyFile merge_into_path] else [])
      in if startrow \<ge> maxid \<or> index \<ge> cnt then (Inr None, tr0)
         else
           (case batch_loop D W cnt maxid merge_into_path verbose dryrun startrow index tr0 of
              (Inl e, tr1) \<Rightarrow> (Inl e, tr1)
            | (Inr (startrow', index'), tr1) \<Rightarrow>
                (Inr (Some startrow'),
                 tr1 @ (if \<not> dryrun then [Unlink (dumped_path D)] else []))))"


subsection \<open>WatchlistDumper.dump_watchlist\<close>

definition all_merge_into_path :: "dumper \<Rightarrow> string" where
  "all_merge_into_path D = path_join (outdir D) (db_name D @ ''-mergeinto-all.gz'')"

definition batch_merge_into_path :: "dumper \<Rightarrow> string" where
  "batch_merge_into_path D = path_join (outdir D) (db_name D @ ''-batch-mergeinto.gz'')"

text \<open>The truth value of \<open>startrow\<close> and of \<open>maxid\<close>: neither \<open>None\<close> nor 0.\<close>

definition truthy :: "int option \<Rightarrow> bool" where
  "truthy v = (case v of None \<Rightarrow> False | Some n \<Rightarrow> n \<noteq> 0)"

text \<open>
  The body of the loop of \<open>dump_watchlist\<close>, from the row \<open>startrow\<close>: one batch, then
  the merge of its result into the final file.  It returns the new \<open>startrow\<close>.
\<close>

definition watch_step ::
  "dumper \<Rightarrow> world \<Rightarrow> int \<Rightarrow> int \<Rightarrow> bool \<Rightarrow> bool \<Rightarrow> int \<Rightarrow> int option action"
where
  "watch_step D W file_batch_count maxid verbose dryrun startrow tr =
     (let tr1 = tr @ (if verbose then [Print [''starting dump-merge batch with row'', py_str startrow]]
                      else [])
      in case dump_merge_batch D W file_batch_count startrow maxid (batch_merge_into_path D)
                verbose dryrun tr1 of
           (Inl e, tr2) \<Rightarrow> (Inl e, tr2)
         | (Inr startrow', tr2) \<Rightarrow>
             if truthy startrow' then
               (let tr3 = tr2 @ (if verbose then [Print [''merging results of dump-merge batch'']]
                                 else [])
                in case MergeAdder_merge D W (all_merge_into_path D) (batch_merge_into_path D)
                          (merged_path D) verbose dryrun tr3 of
                     (Inl e, tr4) \<Rightarrow> (Inl e, tr4)
                   | (Inr u, tr4) \<Rightarrow>
                       (Inr startrow',
                        tr4 @ (if \<not> dryrun then [Move (merged_path D) (all_merge_into_path D)]
                               else [])))
             else (Inr startrow', tr2))"

text \<open>
  The loop \<open>while startrow and startrow < maxid\<close>.  It need not end (a batch size of 0
  never advances \<open>startrow\<close>), so it runs on fuel, one unit for each round: \<open>None\<close> is
  the loop still running when the fuel is spent.
\<close>

fun watch_loop ::
  "nat \<Rightarrow> dumper \<Rightarrow> world \<Rightarrow> int \<Rightarrow> int \<Rightarrow> bool \<Rightarrow> bool \<Rightarrow> int option \<Rightarrow> effect list
    \<Rightarrow> ((dump_error + unit) \<times> effect list) option"
where
  "watch_loop 0 D W file_batch_count maxid verbose dryrun startrow tr =
     (if truthy startrow \<and> the startrow < maxid then None else Some (Inr (), tr))"
| "watch_loop (Suc fuel) D W file_batch_count maxid verbose dryrun startrow tr =
     (if truthy startrow \<and> the startrow < maxid then
        (case watch_step D W file_batch_count maxid verbose dryrun (the startrow) tr of
           (Inl e, tr1) \<Rightarrow> Some (Inl e, tr1)
         | (Inr startrow', tr1) \<Rightarrow>
             watch_loop fuel D W file_batch_count maxid verbose dryrun startrow' tr1)
      else Some (Inr (), tr))"

definition dump_watchlist ::
  "nat \<Rightarrow> dumper \<Rightarrow> world \<Rightarrow> int \<Rightarrow> string \<Rightarrow> bool \<Rightarrow> bool \<Rightarrow> effect list
    \<Rightarrow> ((dump_error + unit) \<times> effect list) option"
where
  "dump_watchlist fuel D W file_batch_count out_path verbose dryrun tr =
     (case get_max_id W ''wl_id'' ''watchlist'' tr of
        (Inl e, tr1) \<Rightarrow> Some (Inl e, tr1)
      | (Inr maxid, tr1) \<Rightarrow>
          if \<not> truthy maxid then
            Some (Inl Exit1, tr1 @ [Print [''Failed to get max watchlist id, bailing!'']])
          else
            (let tr2 = tr1 @ (if verbose \<or> dryrun
                              then [Print [''Max watchlist id:'', py_str (the maxid)]] else []);
                 tr3 = tr2 @ (if \<not> dryrun then [CreateEmptyFile (all_merge_into_path D)] else [])
             in case watch_loop fuel D W file_batch_count (the maxid) verbose dryrun (Some 1) tr3 of
                  None \<Rightarrow> None
                | Some (Inl e, tr4) \<Rightarrow> Some (Inl e, tr4)
                | Some (Inr u, tr4) \<Rightarrow>
                    if dryrun then
                      Some (Inr (), tr4 @ [Print [''output would be moved from'',
                                                  all_merge_into_path D, ''to'', out_path]])
                    else
                      Some (Inr (), tr4 @ [Move (all_merge_into_path D) out_path] @
                                    (if verbose then [Print [''output available in'', out_path]]
                                     else []))))"


text \<open>An instance of the objects and of the world, for the examples.\<close>

definition example_dumper :: dumper where
  "example_dumper =
     \<lparr>outdir = ''/tmp'', batchsize = 1000, db_name = ''testwiki'', gzip = ''/bin/gzip'',
      sort_exe = ''/usr/bin/sort'', mlr = ''/home/ariel/mlr''\<rparr>"

definition example_world :: world where
  "example_world =
     \<lparr>sql_output = (\<lambda>q. Some [''MAX(wl_id)'', ''10'']),
      build_sql_command = (\<lambda>q p. CmdList [Inr [''/usr/bin/mysql'', ''-e'', q], Inl p]),
      command_succeeds = (\<lambda>tr c. True)\<rparr>"

section \<open>Traces of a dry run and of a real run\<close>

definition is_print :: "effect \<Rightarrow> bool" where
  "is_print e = (case e of Print args \<Rightarrow> True | _ \<Rightarrow> False)"

text \<open>
  The shell commands of a trace: those that \<open>run_without_output\<close> was given, and those
  that dry-run mode printed in their place.
\<close>

definition effect_commands :: "effect \<Rightarrow> string list" where
  "effect_commands e =
     (case e of
        RunCommand c \<Rightarrow> [c]
      | Print args \<Rightarrow>
          (case args of
             [a, c] \<Rightarrow> if a = ''Would run:'' \<or> a = ''would run command:'' then [c] else []
           | _ \<Rightarrow> [])
      | _ \<Rightarrow> [])"

definition commands :: "effect list \<Rightarrow> string list" where
  "commands tr = concat (map effect_commands tr)"

definition all_succeed :: "world \<Rightarrow> bool" where
  "all_succeed W = (\<forall>tr c. command_succeeds W tr c)"

text \<open>
  A run that starts after the trace \<open>tr\<close> follows a plan (the result and the trace of a
  dry run) when it ends with the result of the plan, which is no failure, and adds to
  \<open>tr\<close> effects with the commands of the plan; effects that are all calls of \<open>print\<close>
  when the run is a dry run itself.
\<close>

definition follows ::
  "bool \<Rightarrow> effect list \<Rightarrow> (dump_error + 'a) \<times> effect list \<Rightarrow> (dump_error + 'a) \<times> effect list \<Rightarrow> bool"
where
  "follows dryrun tr run plan =
     (\<exists>X a. run = (Inr a, tr @ X) \<and> fst plan = Inr a \<and> commands X = commands (snd plan) \<and>
            (dryrun \<longrightarrow> (\<forall>e\<in>set X. is_print e)))"

section \<open>compare_fields is the order of the sort keys\<close>

lemma getitem_field: "py_index (length r) i \<noteq> None \<Longrightarrow> getitem r i = Inr (field r i)"
  by (auto simp: getitem_def field_def split: option.splits)

lemma py_int_field: "py_int (field r i) \<noteq> None \<Longrightarrow> py_int (field r i) = Some (int_field r i)"
  by (auto simp: int_field_def split: option.splits)

lemma compare_intkeys_ok:
  assumes "\<forall>i\<in>set ks. py_index (length a) i \<noteq> None \<and> py_int (field a i) \<noteq> None"
    and "\<forall>i\<in>set ks. py_index (length b) i \<noteq> None \<and> py_int (field b i) \<noteq> None"
  shows "compare_intkeys ks a b =
     Inr (if map (int_field a) ks < map (int_field b) ks then Some (- 1)
          else if map (int_field b) ks < map (int_field a) ks then Some 1 else None)"
  using assms
proof (induction ks)
  case Nil
  show ?case by simp
next
  case (Cons k ks)
  have ga: "getitem a k = Inr (field a k)" and gb: "getitem b k = Inr (field b k)"
    using Cons.prems by (simp_all add: getitem_field)
  have pa: "py_int (field a k) = Some (int_field a k)"
    and pb: "py_int (field b k) = Some (int_field b k)"
    using Cons.prems by (simp_all add: py_int_field)
  have ih: "compare_intkeys ks a b =
     Inr (if map (int_field a) ks < map (int_field b) ks then Some (- 1)
          else if map (int_field b) ks < map (int_field a) ks then Some 1 else None)"
    using Cons by simp
  show ?case
    by (simp add: ga gb pa pb ih)
qed

lemma compare_strkeys_ok:
  assumes "\<forall>i\<in>set ks. py_index (length a) i \<noteq> None"
    and "\<forall>i\<in>set ks. py_index (length b) i \<noteq> None"
  shows "compare_strkeys ks a b =
     Inr (if map (field a) ks < map (field b) ks then Some (- 1)
          else if map (field b) ks < map (field a) ks then Some 1 else None)"
  using assms
proof (induction ks)
  case Nil
  show ?case by simp
next
  case (Cons k ks)
  have ga: "getitem a k = Inr (field a k)" and gb: "getitem b k = Inr (field b k)"
    using Cons.prems by (simp_all add: getitem_field)
  have ih: "compare_strkeys ks a b =
     Inr (if map (field a) ks < map (field b) ks then Some (- 1)
          else if map (field b) ks < map (field a) ks then Some 1 else None)"
    using Cons by simp
  show ?case
    by (simp add: ga gb ih)
qed

lemma three_way_triple:
  fixes X Y :: "'a::linorder" and S T :: "'b::linorder" and n m :: nat
  shows "three_way (X, S, n) (Y, T, m) =
     (if X < Y then - 1 else if Y < X then 1
      else if S < T then - 1 else if T < S then 1
      else if n > m then 1 else if n < m then - 1 else 0)"
  unfolding three_way_def by auto

lemma compare_fields_rec_key:
  assumes "keys_ok M a" "keys_ok M b"
  shows "compare_fields M a b = Inr (three_way (rec_key M a) (rec_key M b))"
proof -
  have i: "compare_intkeys (intkeys M) a b =
     Inr (if map (int_field a) (intkeys M) < map (int_field b) (intkeys M) then Some (- 1)
          else if map (int_field b) (intkeys M) < map (int_field a) (intkeys M) then Some 1 else None)"
    using assms by (intro compare_intkeys_ok) (simp_all add: keys_ok_def)
  have s: "compare_strkeys (strkeys M) a b =
     Inr (if map (field a) (strkeys M) < map (field b) (strkeys M) then Some (- 1)
          else if map (field b) (strkeys M) < map (field a) (strkeys M) then Some 1 else None)"
    using assms by (intro compare_strkeys_ok) (simp_all add: keys_ok_def)
  show ?thesis
    unfolding compare_fields_def i s rec_key_def three_way_triple
    by simp
qed

section \<open>do_merge on lists of records\<close>

lemma split_tab_not_Nil [simp]: "split_tab l \<noteq> []"
  by (induction l) auto

lemma join_split_tab [simp]: "join_tab (split_tab l) = l"
proof (induction l)
  case Nil
  show ?case by simp
next
  case (Cons c cs)
  obtain f fs where s: "split_tab cs = f # fs"
    by (cases "split_tab cs") auto
  with Cons show ?case
    by (cases fs) auto
qed

lemma split_tab_empty [simp]: "split_tab l = [[]] \<longleftrightarrow> l = []"
  by (cases l) auto

lemma join_tab_empty: "fs \<noteq> [] \<Longrightarrow> join_tab fs = [] \<longleftrightarrow> fs = [[]]"
  by (induction fs rule: join_tab.induct) auto

lemma drain_takeWhile:
  "drain line fh out = (if line = [] then out else out @ line # takeWhile (\<lambda>l. l \<noteq> []) fh)"
proof (induction fh arbitrary: line out)
  case Nil
  show ?case
    by (subst drain.simps, subst drain.simps) (simp add: readline_rstrip_def)
next
  case (Cons l fh)
  show ?case
    by (subst drain.simps) (simp add: readline_rstrip_def Cons)
qed

lemma current_run_readline:
  "current_run (split_tab (fst (readline_rstrip fh))) (snd (readline_rstrip fh)) = read_run fh"
  by (cases fh) (auto simp: current_run_def read_run_def readline_rstrip_def)

lemma do_merge_merge_all:
  "do_merge M A B out =
     merge_all M (split_tab (fst (readline_rstrip A))) (split_tab (fst (readline_rstrip B)))
       (snd (readline_rstrip A)) (snd (readline_rstrip B)) out"
  by (simp add: do_merge_def merge_all_def Let_def)

lemma merge_all_unfold:
  "merge_all M hf tf have tm out =
     (if hf \<noteq> [[]] \<and> tf \<noteq> [[]] then
        (case compare_fields M hf tf of
           Inl e \<Rightarrow> (Some e, out)
         | Inr r \<Rightarrow>
             if r = 0 then
               (case sum_fields M hf tf of
                  Inl e \<Rightarrow> (Some e, out)
                | Inr hf' \<Rightarrow>
                    merge_all M hf' (split_tab (fst (readline_rstrip tm)))
                      have (snd (readline_rstrip tm)) out)
             else if r < 0 then
               merge_all M (split_tab (fst (readline_rstrip have))) tf
                 (snd (readline_rstrip have)) tm (out @ [join_tab hf])
             else
               merge_all M hf (split_tab (fst (readline_rstrip tm)))
                 have (snd (readline_rstrip tm)) (out @ [join_tab tf]))
      else (None, drain (join_tab tf) tm (drain (join_tab hf) have out)))"
  unfolding merge_all_def
  by (subst merge_loop.simps) (simp split: sum.splits)


lemma nat_digits_not_Nil [simp]: "nat_digits n \<noteq> []"
  by (subst nat_digits.simps) simp

lemma py_str_not_Nil [simp]: "py_str i \<noteq> []"
  by (simp add: py_str_def)

lemma sum_loop_length: "sum_loop ks xs ys = Inr xs' \<Longrightarrow> length xs' = length xs"
  by (induction ks xs ys rule: sum_loop.induct)
     (auto simp: setitem_def split: sum.splits option.splits)

lemma sum_loop_nonempty:
  "sum_loop ks xs ys = Inr xs' \<Longrightarrow> k < length xs \<Longrightarrow> xs ! k \<noteq> [] \<Longrightarrow> xs' ! k \<noteq> []"
proof (induction ks xs ys rule: sum_loop.induct)
  case (1 infields to_add_fields)
  then show ?case by simp
next
  case (2 index rest infields to_add_fields)
  from "2.prems"(1) obtain x m y n j where
    x: "getitem infields index = Inr x" "py_int x = Some m"
    and y: "getitem to_add_fields index = Inr y" "py_int y = Some n"
    and j: "py_index (length infields) index = Some j"
    and r: "sum_loop rest (infields[j := py_str (m + n)]) to_add_fields = Inr xs'"
    by (auto simp: setitem_def split: sum.splits option.splits)
  have s: "setitem infields index (py_str (m + n)) = Inr (infields[j := py_str (m + n)])"
    by (simp add: setitem_def j)
  have "(infields[j := py_str (m + n)]) ! k \<noteq> []"
    using "2.prems"(2,3) by (cases "k = j") simp_all
  with "2.IH"[OF x y s r] "2.prems"(2) show ?case by simp
qed

lemma sum_fields_length: "sum_fields M a b = Inr a' \<Longrightarrow> length a' = length a \<and> length b = length a"
  by (auto simp: sum_fields_def sum_loop_length split: if_splits)

lemma sum_fields_not_sentinel:
  assumes "sum_fields M a b = Inr a'" "a \<noteq> []" "a \<noteq> [[]]"
  shows "a' \<noteq> [] \<and> a' \<noteq> [[]]"
proof -
  have l: "length a' = length a"
    using assms(1) by (simp add: sum_fields_length)
  have s: "sum_loop (sums M) a b = Inr a'"
    using assms(1) by (auto simp: sum_fields_def split: if_splits)
  show ?thesis
  proof (cases a)
    case Nil
    with assms show ?thesis by simp
  next
    case (Cons x rest)
    show ?thesis
    proof (cases rest)
      case Nil
      with Cons assms(3) have "a ! 0 \<noteq> []" by simp
      with sum_loop_nonempty[OF s, of 0] Cons have "a' ! 0 \<noteq> []" by simp
      then show ?thesis using l Cons by (cases a') auto
    next
      case (Cons y rest')
      with \<open>a = x # rest\<close> l show ?thesis by (cases a') auto
    qed
  qed
qed

lemma merge_all_runs:
  "hf \<noteq> [] \<Longrightarrow> tf \<noteq> [] \<Longrightarrow>
   merge_all M hf tf have tm out =
     apsnd (\<lambda>rs. out @ map join_tab rs)
       (merge_runs M (current_run hf have) (current_run tf tm))"
proof (induction M hf tf "have" tm out rule: merge_loop.induct)
  case (1 M hf tf "have" tm out)
  show ?case
  proof (cases "hf \<noteq> [[]] \<and> tf \<noteq> [[]]")
    case False
    have jh: "join_tab hf = [] \<longleftrightarrow> hf = [[]]" and jt: "join_tab tf = [] \<longleftrightarrow> tf = [[]]"
      using "1.prems" by (simp_all add: join_tab_empty)
    have rr: "map join_tab (read_run fh) = takeWhile (\<lambda>l. l \<noteq> []) fh" for fh
      by (simp add: read_run_def comp_def)
    show ?thesis
    proof (cases "hf = [[]]")
      case True
      with jt show ?thesis
        by (subst merge_all_unfold) (simp add: current_run_def drain_takeWhile rr)
    next
      case hf: False
      with False have tf: "tf = [[]]" by simp
      from hf jh have "join_tab hf \<noteq> []" by simp
      with hf tf show ?thesis
        by (subst merge_all_unfold) (simp add: current_run_def drain_takeWhile rr)
    qed
  next
    case True
    then have hf: "hf \<noteq> [[]]" and tf: "tf \<noteq> [[]]" by simp_all
    have cur: "current_run hf have = hf # read_run have" "current_run tf tm = tf # read_run tm"
      using hf tf by (simp_all add: current_run_def)
    show ?thesis
    proof (cases "compare_fields M hf tf")
      case (Inl e)
      with True show ?thesis
        by (subst merge_all_unfold) (simp add: cur)
    next
      case (Inr r)
      consider "r = 0" | "r < 0" | "r > 0" by linarith
      then show ?thesis
      proof cases
        case 1
        note r0 = this
        show ?thesis
        proof (cases "sum_fields M hf tf")
          case (Inl e)
          with True Inr r0 show ?thesis
            by (subst merge_all_unfold) (simp add: cur)
        next
          case (Inr hf')
          have ns: "hf' \<noteq> [] \<and> hf' \<noteq> [[]]"
            using sum_fields_not_sentinel[OF Inr "1.prems"(1) hf] .
          have ih: "merge_all M hf' (split_tab (fst (readline_rstrip tm))) have
                      (snd (readline_rstrip tm)) out =
                    apsnd (\<lambda>rs. out @ map join_tab rs)
                      (merge_runs M (current_run hf' have) (read_run tm))"
            using "1.IH"(1)[OF True \<open>compare_fields M hf tf = Inr r\<close> r0 Inr] ns
            by (simp add: current_run_readline)
          have c': "current_run hf' have = hf' # read_run have"
            using ns by (simp add: current_run_def)
          show ?thesis
            using True \<open>compare_fields M hf tf = Inr r\<close> r0 Inr
            by (subst merge_all_unfold) (simp add: cur ih c')
        qed
      next
        case 2
        have ih: "merge_all M (split_tab (fst (readline_rstrip have))) tf
                      (snd (readline_rstrip have)) tm (out @ [join_tab hf]) =
                    apsnd (\<lambda>rs. (out @ [join_tab hf]) @ map join_tab rs)
                      (merge_runs M (read_run have) (current_run tf tm))"
          using "1.IH"(2)[OF True Inr _ 2] 2 "1.prems"
          by (simp add: current_run_readline)
        show ?thesis
          using True Inr 2
          by (subst merge_all_unfold)
             (simp add: cur ih apsnd_def map_prod_def split: prod.splits)
      next
        case 3
        have ih: "merge_all M hf (split_tab (fst (readline_rstrip tm))) have
                      (snd (readline_rstrip tm)) (out @ [join_tab tf]) =
                    apsnd (\<lambda>rs. (out @ [join_tab tf]) @ map join_tab rs)
                      (merge_runs M (current_run hf have) (read_run tm))"
          using "1.IH"(3)[OF True Inr] 3 "1.prems"
          by (simp add: current_run_readline)
        show ?thesis
          using True Inr 3
          by (subst merge_all_unfold)
             (simp add: cur ih apsnd_def map_prod_def split: prod.splits)
      qed
    qed
  qed
qed

lemma do_merge_runs:
  "do_merge M A B out =
     apsnd (\<lambda>rs. out @ map join_tab rs) (merge_runs M (read_run A) (read_run B))"
  by (simp add: do_merge_merge_all merge_all_runs current_run_readline)

section \<open>The empty run, empty lines, and the order of records\<close>

lemma read_run_Nil [simp]: "read_run [] = []"
  by (simp add: read_run_def)

lemma merge_runs_Nil_right [simp]: "merge_runs M as [] = (None, as)"
  by (cases as) simp_all

lemma join_read_run: "[] \<notin> set A \<Longrightarrow> map join_tab (read_run A) = A"
proof -
  assume "[] \<notin> set A"
  then have "takeWhile (\<lambda>l. l \<noteq> []) A = A"
    by (induction A) auto
  then show ?thesis
    by (simp add: read_run_def comp_def)
qed

lemma read_run_cut: "read_run (A1 @ [] # A2) = read_run A1"
  by (induction A1) (simp_all add: read_run_def)

text \<open>
  C9.  Merging a file that has no empty line with the empty file returns without an
  exception and writes the lines of the file, unchanged and in their order, whichever of
  the two arguments the empty file is.
\<close>

theorem do_merge_empty_identity:
  assumes "[] \<notin> set A"
  shows "do_merge M A [] [] = (None, A) \<and> do_merge M [] A [] = (None, A)"
  using assms by (simp add: do_merge_runs join_read_run)

theorem do_merge_empty_identity_witness:
  "[] \<notin> set [join_tab [''1'', ''a'', ''5''], join_tab [''2'', ''b'', ''1'']] \<and>
   do_merge \<lparr>intkeys = [0], strkeys = [1], sums = [2]\<rparr>
     [join_tab [''1'', ''a'', ''5''], join_tab [''2'', ''b'', ''1'']] [] [] =
     (None, [join_tab [''1'', ''a'', ''5''], join_tab [''2'', ''b'', ''1'']]) \<and>
   do_merge \<lparr>intkeys = [0], strkeys = [1], sums = [2]\<rparr>
     [] [join_tab [''1'', ''a'', ''5''], join_tab [''2'', ''b'', ''1'']] [] =
     (None, [join_tab [''1'', ''a'', ''5''], join_tab [''2'', ''b'', ''1'']])"
proof -
  have h: "[] \<notin> set [join_tab [''1'', ''a'', ''5''], join_tab [''2'', ''b'', ''1'']]"
    by simp
  from do_merge_empty_identity[OF h] h show ?thesis by blast
qed

text \<open>
  C10.  The first empty line of an input ends it: \<open>do_merge\<close> returns the same result,
  exception or not, and writes the same output as on the input cut before that line,
  whatever follows the empty line, for the first input and for the second.
\<close>

theorem do_merge_empty_line_ends_run:
  "do_merge M (A1 @ [] # A2) B out = do_merge M A1 B out \<and>
   do_merge M A (B1 @ [] # B2) out = do_merge M A B1 out"
  by (simp add: do_merge_runs read_run_cut)

text \<open>
  C8, as amended.  For two records whose key positions exist and whose integer keys
  parse, \<open>compare_fields\<close> returns -1, 0 or 1 as the sort key of the first record is
  below, equal to or above that of the second, where the sort key is the list of the
  values of the integer keys, then the list of the string keys, then the number of
  fields, in the lexicographic order.  It returns 0 exactly when the integer keys have
  equal values, the string keys are the same strings and the numbers of fields agree.
\<close>

theorem compare_fields_total_order:
  assumes "keys_ok M a" "keys_ok M b"
  shows "compare_fields M a b =
           Inr (if rec_key M a < rec_key M b then - 1
                else if rec_key M b < rec_key M a then 1 else 0) \<and>
         (compare_fields M a b = Inr 0 \<longleftrightarrow>
            (\<forall>i\<in>set (intkeys M). int_field a i = int_field b i) \<and>
            (\<forall>i\<in>set (strkeys M). field a i = field b i) \<and>
            length a = length b)"
proof -
  have c: "compare_fields M a b =
           Inr (if rec_key M a < rec_key M b then - 1
                else if rec_key M b < rec_key M a then 1 else 0)"
    using compare_fields_rec_key[OF assms] by (simp add: three_way_def)
  have "compare_fields M a b = Inr 0 \<longleftrightarrow> rec_key M a = rec_key M b"
    unfolding c by auto
  also have "\<dots> \<longleftrightarrow> (\<forall>i\<in>set (intkeys M). int_field a i = int_field b i) \<and>
            (\<forall>i\<in>set (strkeys M). field a i = field b i) \<and> length a = length b"
    by (simp add: rec_key_def)
  finally show ?thesis using c by blast
qed

theorem compare_fields_total_order_witness:
  "keys_ok \<lparr>intkeys = [0], strkeys = [1], sums = [2]\<rparr> [''1'', ''a'', ''5''] \<and>
   keys_ok \<lparr>intkeys = [0], strkeys = [1], sums = [2]\<rparr> [''1'', ''b'', ''2''] \<and>
   compare_fields \<lparr>intkeys = [0], strkeys = [1], sums = [2]\<rparr>
     [''1'', ''a'', ''5''] [''1'', ''b'', ''2''] = Inr (- 1)"
proof -
  let ?M = "\<lparr>intkeys = [0], strkeys = [1], sums = [2]\<rparr>"
  have a: "keys_ok ?M [''1'', ''a'', ''5'']" by code_simp
  have b: "keys_ok ?M [''1'', ''b'', ''2'']" by code_simp
  have l: "rec_key ?M [''1'', ''a'', ''5''] < rec_key ?M [''1'', ''b'', ''2'']"
    by code_simp
  from compare_fields_total_order[OF a b] a b l show ?thesis by simp
qed

theorem compare_fields_zero_counterexample:
  "keys_ok \<lparr>intkeys = [0], strkeys = [], sums = []\<rparr> [''01''] \<and>
   keys_ok \<lparr>intkeys = [0], strkeys = [], sums = []\<rparr> [''1''] \<and>
   compare_fields \<lparr>intkeys = [0], strkeys = [], sums = []\<rparr> [''01''] [''1''] = Inr 0 \<and>
   getitem [''01''] 0 \<noteq> getitem [''1''] 0"
  by code_simp

section \<open>Records with different numbers of fields\<close>

lemma compare_intkeys_error:
  "compare_intkeys ks a b = Inl e \<Longrightarrow> e = IndexError \<or> e = ValueError"
  by (induction ks) (auto simp: getitem_def split: sum.splits option.splits if_splits)

lemma compare_strkeys_error:
  "compare_strkeys ks a b = Inl e \<Longrightarrow> e = IndexError \<or> e = ValueError"
  by (induction ks) (auto simp: getitem_def split: sum.splits option.splits if_splits)

lemma compare_fields_error:
  "compare_fields M a b = Inl e \<Longrightarrow> e = IndexError \<or> e = ValueError"
  by (auto simp: compare_fields_def split: sum.splits option.splits if_splits
           dest: compare_intkeys_error compare_strkeys_error)

lemma compare_fields_zero_length:
  "compare_fields M a b = Inr 0 \<Longrightarrow> length a = length b"
proof -
  assume c: "compare_fields M a b = Inr 0"
  have i: "compare_intkeys ks a b \<noteq> Inr (Some 0)" for ks
    by (induction ks) (auto split: sum.splits option.splits)
  have s: "compare_strkeys ks a b \<noteq> Inr (Some 0)" for ks
    by (induction ks) (auto split: sum.splits option.splits)
  from c i[of "intkeys M"] s[of "strkeys M"] show ?thesis
    by (auto simp: compare_fields_def split: sum.splits option.splits if_splits)
qed

lemma bad_line_not_differing: "bad_line_msg x y \<noteq> differing_msg m n"
  by (simp add: bad_line_msg_def differing_msg_def)

lemma sum_loop_error:
  "sum_loop ks xs ys = Inl e \<Longrightarrow> e = IndexError \<or> (\<exists>x y. e = SystemExit (bad_line_msg x y))"
  by (induction ks xs ys rule: sum_loop.induct)
     (auto simp: getitem_def setitem_def split: sum.splits option.splits)

lemma merge_runs_no_differing:
  "fst (merge_runs M as bs) \<noteq> Some (SystemExit (differing_msg m n))"
proof (induction M as bs rule: merge_runs.induct)
  case (1 M bs)
  show ?case by simp
next
  case (2 M a as)
  show ?case by simp
next
  case (3 M a as b bs)
  show ?case
  proof (cases "compare_fields M a b")
    case (Inl e)
    with compare_fields_error[OF Inl] show ?thesis by auto
  next
    case (Inr r)
    consider "r = 0" | "r < 0" | "r > 0" by linarith
    then show ?thesis
    proof cases
      case 1
      with Inr have len: "length a = length b"
        by (simp add: compare_fields_zero_length)
      show ?thesis
      proof (cases "sum_fields M a b")
        case (Inl e)
        with len have "sum_loop (sums M) a b = Inl e"
          by (simp add: sum_fields_def)
        from sum_loop_error[OF this] Inl Inr 1 show ?thesis
          by (auto simp: bad_line_not_differing bad_line_not_differing[THEN not_sym])
      next
        case (Inr a')
        with "3.IH"(1)[OF \<open>compare_fields M a b = Inr r\<close> 1 Inr] 1
          \<open>compare_fields M a b = Inr r\<close>
        show ?thesis by simp
      qed
    next
      case 2
      with "3.IH"(2)[OF Inr _ 2] Inr show ?thesis by simp
    next
      case 3
      with "3.IH"(3)[OF Inr] Inr show ?thesis by simp
    qed
  qed
qed

lemma do_merge_step_less:
  assumes "la \<noteq> []" "lb \<noteq> []" "compare_fields M (split_tab la) (split_tab lb) = Inr r" "r < 0"
  shows "do_merge M (la # A) (lb # B) out = do_merge M A (lb # B) (out @ [la])"
  using assms
  by (simp add: do_merge_merge_all readline_rstrip_def)
     (subst merge_all_unfold, simp add: readline_rstrip_def)

lemma do_merge_step_greater:
  assumes "la \<noteq> []" "lb \<noteq> []" "compare_fields M (split_tab la) (split_tab lb) = Inr r" "r > 0"
  shows "do_merge M (la # A) (lb # B) out = do_merge M (la # A) B (out @ [lb])"
  using assms
  by (simp add: do_merge_merge_all readline_rstrip_def)
     (subst merge_all_unfold, simp add: readline_rstrip_def)


text \<open>
  C5, as amended.  \<open>sum_fields\<close>, called on two records whose numbers of fields differ,
  exits through \<open>whine\<close> with the message that holds both numbers, and returns no record.
  \<open>do_merge\<close> never calls it so: \<open>compare_fields\<close> is not 0 on such a pair, and when the
  keys of the two current records are equal and the numbers of fields differ, the record
  with fewer fields is written unchanged and its input advances.  No run of \<open>do_merge\<close>
  ends with that message.
\<close>

theorem field_count_mismatch:
  "(length a \<noteq> length b \<longrightarrow>
      sum_fields M a b = Inl (SystemExit (differing_msg (length a) (length b))) \<and>
      compare_fields M a b \<noteq> Inr 0) \<and>
   (la \<noteq> [] \<and> lb \<noteq> [] \<and> keys_ok M (split_tab la) \<and> keys_ok M (split_tab lb) \<and>
    map (int_field (split_tab la)) (intkeys M) = map (int_field (split_tab lb)) (intkeys M) \<and>
    map (field (split_tab la)) (strkeys M) = map (field (split_tab lb)) (strkeys M) \<longrightarrow>
      (length (split_tab la) < length (split_tab lb) \<longrightarrow>
         do_merge M (la # A) (lb # B) out = do_merge M A (lb # B) (out @ [la])) \<and>
      (length (split_tab la) > length (split_tab lb) \<longrightarrow>
         do_merge M (la # A) (lb # B) out = do_merge M (la # A) B (out @ [lb]))) \<and>
   fst (do_merge M A B out) \<noteq> Some (SystemExit (differing_msg m n))"
proof (intro conjI impI)
  assume "length a \<noteq> length b"
  then show "sum_fields M a b = Inl (SystemExit (differing_msg (length a) (length b)))"
    by (simp add: sum_fields_def)
next
  assume "length a \<noteq> length b"
  then show "compare_fields M a b \<noteq> Inr 0"
    using compare_fields_zero_length by blast
next
  assume h: "la \<noteq> [] \<and> lb \<noteq> [] \<and> keys_ok M (split_tab la) \<and> keys_ok M (split_tab lb) \<and>
    map (int_field (split_tab la)) (intkeys M) = map (int_field (split_tab lb)) (intkeys M) \<and>
    map (field (split_tab la)) (strkeys M) = map (field (split_tab lb)) (strkeys M)"
    and l: "length (split_tab la) < length (split_tab lb)"
  from h have e: "map (int_field (split_tab la)) (intkeys M) = map (int_field (split_tab lb)) (intkeys M)"
    "map (field (split_tab la)) (strkeys M) = map (field (split_tab lb)) (strkeys M)"
    by blast+
  have "rec_key M (split_tab la) < rec_key M (split_tab lb)"
    unfolding rec_key_def e using l by simp
  moreover from h have "keys_ok M (split_tab la)" "keys_ok M (split_tab lb)" by blast+
  ultimately have "compare_fields M (split_tab la) (split_tab lb) = Inr (- 1)"
    by (simp add: compare_fields_rec_key three_way_def)
  with h show "do_merge M (la # A) (lb # B) out = do_merge M A (lb # B) (out @ [la])"
    by (intro do_merge_step_less[where r = "- 1"]) simp_all
next
  assume h: "la \<noteq> [] \<and> lb \<noteq> [] \<and> keys_ok M (split_tab la) \<and> keys_ok M (split_tab lb) \<and>
    map (int_field (split_tab la)) (intkeys M) = map (int_field (split_tab lb)) (intkeys M) \<and>
    map (field (split_tab la)) (strkeys M) = map (field (split_tab lb)) (strkeys M)"
    and l: "length (split_tab lb) < length (split_tab la)"
  from h have e: "map (int_field (split_tab la)) (intkeys M) = map (int_field (split_tab lb)) (intkeys M)"
    "map (field (split_tab la)) (strkeys M) = map (field (split_tab lb)) (strkeys M)"
    by blast+
  have "rec_key M (split_tab lb) < rec_key M (split_tab la)"
    unfolding rec_key_def e using l by simp
  moreover from h have "keys_ok M (split_tab la)" "keys_ok M (split_tab lb)" by blast+
  ultimately have "compare_fields M (split_tab la) (split_tab lb) = Inr 1"
    by (simp add: compare_fields_rec_key three_way_def not_less_iff_gr_or_eq)
  with h show "do_merge M (la # A) (lb # B) out = do_merge M (la # A) B (out @ [lb])"
    by (intro do_merge_step_greater[where r = 1]) simp_all
next
  show "fst (do_merge M A B out) \<noteq> Some (SystemExit (differing_msg m n))"
    using merge_runs_no_differing[of M "read_run A" "read_run B" m n]
    by (simp add: do_merge_runs)
qed

theorem field_count_mismatch_witness:
  "length [''1'', ''a'', ''5''] \<noteq> length [''1'', ''a'', ''3'', ''x''] \<and>
   sum_fields \<lparr>intkeys = [0], strkeys = [1], sums = [2]\<rparr>
     [''1'', ''a'', ''5''] [''1'', ''a'', ''3'', ''x''] =
     Inl (SystemExit (differing_msg (length [''1'', ''a'', ''5''])
       (length [''1'', ''a'', ''3'', ''x'']))) \<and>
   compare_fields \<lparr>intkeys = [0], strkeys = [1], sums = [2]\<rparr>
     [''1'', ''a'', ''5''] [''1'', ''a'', ''3'', ''x''] \<noteq> Inr 0 \<and>
   do_merge \<lparr>intkeys = [0], strkeys = [1], sums = [2]\<rparr>
     [join_tab [''1'', ''a'', ''5'']] [join_tab [''1'', ''a'', ''3'', ''x'']] [] =
   do_merge \<lparr>intkeys = [0], strkeys = [1], sums = [2]\<rparr>
     [] [join_tab [''1'', ''a'', ''3'', ''x'']] ([] @ [join_tab [''1'', ''a'', ''5'']])"
proof -
  let ?M = "\<lparr>intkeys = [0], strkeys = [1], sums = [2]\<rparr>"
  let ?la = "join_tab [''1'', ''a'', ''5'']" and ?lb = "join_tab [''1'', ''a'', ''3'', ''x'']"
  have l: "length [''1'', ''a'', ''5''] \<noteq> length [''1'', ''a'', ''3'', ''x'']"
    by simp
  have h: "?la \<noteq> [] \<and> ?lb \<noteq> [] \<and> keys_ok ?M (split_tab ?la) \<and> keys_ok ?M (split_tab ?lb) \<and>
    map (int_field (split_tab ?la)) (intkeys ?M) = map (int_field (split_tab ?lb)) (intkeys ?M) \<and>
    map (field (split_tab ?la)) (strkeys ?M) = map (field (split_tab ?lb)) (strkeys ?M)"
    by code_simp
  have k: "length (split_tab ?la) < length (split_tab ?lb)"
    by code_simp
  from field_count_mismatch[of "[''1'', ''a'', ''5'']" "[''1'', ''a'', ''3'', ''x'']" ?M ?la ?lb
      "[]" "[]" "[]" 0 0] l h k
  show ?thesis by blast
qed

theorem field_count_mismatch_counterexample:
  "compare_fields \<lparr>intkeys = [0], strkeys = [1], sums = [2]\<rparr>
     [''1'', ''a'', ''5''] [''1'', ''a'', ''3'', ''x''] = Inr (- 1) \<and>
   do_merge \<lparr>intkeys = [0], strkeys = [1], sums = [2]\<rparr>
     [join_tab [''1'', ''a'', ''5'']] [join_tab [''1'', ''a'', ''3'', ''x'']] [] =
     (None, [join_tab [''1'', ''a'', ''5''], join_tab [''1'', ''a'', ''3'', ''x'']])"
  by code_simp

section \<open>What sum_fields keeps\<close>

lemma split_tab_no_tab: "TAB \<notin> set f \<Longrightarrow> split_tab f = [f]"
  by (induction f) auto

lemma split_tab_append_tab: "TAB \<notin> set f \<Longrightarrow> split_tab (f @ TAB # rest) = f # split_tab rest"
  by (induction f) auto

lemma split_join_tab: "wf_rec r \<Longrightarrow> split_tab (join_tab r) = r"
  by (induction r rule: join_tab.induct)
     (auto simp: wf_rec_def split_tab_no_tab split_tab_append_tab)

lemma wf_rec_split_tab [simp]: "wf_rec (split_tab l)"
proof (induction l)
  case Nil
  show ?case by (simp add: wf_rec_def)
next
  case (Cons c cs)
  then show ?case
    by (cases "split_tab cs") (auto simp: wf_rec_def)
qed

lemma of_char_digit_char: "d < 10 \<Longrightarrow> of_char (digit_char d) = 48 + d"
  by (simp add: digit_char_def)

lemma digit_char_not_TAB: "d < 10 \<Longrightarrow> digit_char d \<noteq> TAB"
proof
  assume "d < 10" "digit_char d = TAB"
  then have "(of_char (digit_char d) :: nat) = of_char TAB" by simp
  with \<open>d < 10\<close> show False
    by (simp add: of_char_digit_char TAB_def)
qed

lemma nat_digits_no_tab: "TAB \<notin> set (nat_digits n)"
proof (induction n rule: nat_digits.induct)
  case (1 n)
  show ?case
  proof (cases "n < 10")
    case True
    then show ?thesis
      by (subst nat_digits.simps) (simp add: digit_char_not_TAB[THEN not_sym])
  next
    case False
    with 1 have "TAB \<notin> set (nat_digits (n div 10))" by simp
    moreover have "digit_char (n mod 10) \<noteq> TAB"
      by (rule digit_char_not_TAB) simp
    ultimately show ?thesis
      using False by (subst nat_digits.simps) auto
  qed
qed

lemma py_str_no_tab: "TAB \<notin> set (py_str i)"
  using nat_digits_no_tab by (auto simp: py_str_def TAB_def)

lemma py_index_nonneg: "0 \<le> i \<Longrightarrow> py_index n i = (if nat i < n then Some (nat i) else None)"
  by (auto simp: py_index_def)

lemma field_nonneg: "0 \<le> i \<Longrightarrow> field r i = (if nat i < length r then r ! nat i else [])"
  by (simp add: field_def getitem_def py_index_nonneg)

lemma sum_loop_field_other:
  "sum_loop ks xs ys = Inr xs' \<Longrightarrow> \<forall>k\<in>set ks. 0 \<le> k \<Longrightarrow> 0 \<le> i \<Longrightarrow> i \<notin> set ks
    \<Longrightarrow> field xs' i = field xs i"
proof (induction ks xs ys rule: sum_loop.induct)
  case (1 infields to_add_fields)
  then show ?case by simp
next
  case (2 index rest infields to_add_fields)
  from "2.prems"(1) obtain x m y n j where
    x: "getitem infields index = Inr x" "py_int x = Some m"
    and y: "getitem to_add_fields index = Inr y" "py_int y = Some n"
    and j: "py_index (length infields) index = Some j"
    and r: "sum_loop rest (infields[j := py_str (m + n)]) to_add_fields = Inr xs'"
    by (auto simp: setitem_def split: sum.splits option.splits)
  have s: "setitem infields index (py_str (m + n)) = Inr (infields[j := py_str (m + n)])"
    by (simp add: setitem_def j)
  from "2.prems" have "0 \<le> index" "index \<noteq> i" by auto
  with j have "j = nat index" "nat i \<noteq> nat index"
    using "2.prems"(3) by (auto simp: py_index_nonneg split: if_splits)
  then have "field (infields[j := py_str (m + n)]) i = field infields i"
    using "2.prems"(3) by (simp add: field_nonneg)
  with "2.IH"[OF x y s r] "2.prems" show ?case by simp
qed

lemma sum_loop_wf: "sum_loop ks xs ys = Inr xs' \<Longrightarrow> wf_rec xs \<Longrightarrow> wf_rec xs'"
proof (induction ks xs ys rule: sum_loop.induct)
  case (1 infields to_add_fields)
  then show ?case by simp
next
  case (2 index rest infields to_add_fields)
  from "2.prems"(1) obtain x m y n j where
    x: "getitem infields index = Inr x" "py_int x = Some m"
    and y: "getitem to_add_fields index = Inr y" "py_int y = Some n"
    and j: "py_index (length infields) index = Some j"
    and r: "sum_loop rest (infields[j := py_str (m + n)]) to_add_fields = Inr xs'"
    by (auto simp: setitem_def split: sum.splits option.splits)
  have s: "setitem infields index (py_str (m + n)) = Inr (infields[j := py_str (m + n)])"
    by (simp add: setitem_def j)
  have "wf_rec (infields[j := py_str (m + n)])"
    using "2.prems"(2) py_str_no_tab[of "m + n"]
      set_update_subset_insert[of infields j "py_str (m + n)"]
    by (auto simp: wf_rec_def)
  with "2.IH"[OF x y s r] show ?case by simp
qed

lemma sum_fields_wf: "sum_fields M a b = Inr a' \<Longrightarrow> wf_rec a \<Longrightarrow> wf_rec a'"
  by (auto simp: sum_fields_def split: if_splits dest: sum_loop_wf)

lemma sum_fields_field_key:
  assumes "roles_ok M" "sum_fields M a b = Inr a'" "i \<in> set (intkeys M @ strkeys M)"
  shows "field a' i = field a i"
proof -
  from assms(2) have s: "sum_loop (sums M) a b = Inr a'"
    by (auto simp: sum_fields_def split: if_splits)
  from assms(1,3) have "\<forall>k\<in>set (sums M). 0 \<le> k" "0 \<le> i" "i \<notin> set (sums M)"
    by (auto simp: roles_ok_def)
  with sum_loop_field_other[OF s] show ?thesis by blast
qed

lemma sum_fields_rec_key:
  assumes "roles_ok M" "sum_fields M a b = Inr a'"
  shows "rec_key M a' = rec_key M a"
proof -
  have "length a' = length a"
    using assms(2) by (simp add: sum_fields_length)
  moreover have "map (int_field a') (intkeys M) = map (int_field a) (intkeys M)"
    using sum_fields_field_key[OF assms] by (simp add: int_field_def)
  moreover have "map (field a') (strkeys M) = map (field a) (strkeys M)"
    using sum_fields_field_key[OF assms] by simp
  ultimately show ?thesis by (simp add: rec_key_def)
qed

lemma sum_fields_keys_ok:
  assumes "roles_ok M" "sum_fields M a b = Inr a'" "keys_ok M a"
  shows "keys_ok M a'"
proof -
  have "length a' = length a"
    using assms(2) by (simp add: sum_fields_length)
  with assms(3) sum_fields_field_key[OF assms(1,2)] show ?thesis
    by (simp add: keys_ok_def)
qed

lemma rec_le_rec_key:
  "keys_ok M a \<Longrightarrow> keys_ok M b \<Longrightarrow> rec_le M a b \<longleftrightarrow> rec_key M a \<le> rec_key M b"
  by (auto simp: rec_le_def compare_fields_rec_key three_way_def)

lemma sorted_wrt_rec_le:
  assumes "\<forall>r\<in>set rs. keys_ok M r"
  shows "sorted_wrt (rec_le M) rs \<longleftrightarrow> sorted (map (rec_key M) rs)"
proof -
  have "sorted_wrt (rec_le M) rs \<longleftrightarrow> sorted_wrt (\<lambda>x y. rec_key M x \<le> rec_key M y) rs"
    using assms
    by (intro iffI; elim sorted_wrt_mono_rel[rotated]) (simp_all add: rec_le_rec_key)
  then show ?thesis by (simp add: sorted_map)
qed

section \<open>Invariants of the merge\<close>

lemma merge_runs_wf:
  "\<forall>r\<in>set as \<union> set bs. wf_rec r \<Longrightarrow> \<forall>r\<in>set (snd (merge_runs M as bs)). wf_rec r"
proof (induction M as bs rule: merge_runs.induct)
  case (1 M bs)
  then show ?case by simp
next
  case (2 M a as)
  then show ?case by simp
next
  case (3 M a as b bs)
  show ?case
  proof (cases "compare_fields M a b")
    case (Inl e)
    then show ?thesis by simp
  next
    case (Inr r)
    consider "r = 0" | "r < 0" | "r > 0" by linarith
    then show ?thesis
    proof cases
      case 1
      show ?thesis
      proof (cases "sum_fields M a b")
        case (Inl e)
        with Inr 1 show ?thesis by simp
      next
        case (Inr a')
        with "3.prems" have "wf_rec a'" by (simp add: sum_fields_wf)
        with "3.IH"(1)[OF \<open>compare_fields M a b = Inr r\<close> 1 Inr] "3.prems"
          \<open>compare_fields M a b = Inr r\<close> 1 Inr
        show ?thesis by simp
      qed
    next
      case 2
      with "3.IH"(2)[OF Inr _ 2] "3.prems" Inr show ?thesis by simp
    next
      case 3
      with "3.IH"(3)[OF Inr] "3.prems" Inr show ?thesis by simp
    qed
  qed
qed

lemma merge_runs_sorted:
  assumes "roles_ok M"
  shows "\<forall>r\<in>set as \<union> set bs. keys_ok M r \<Longrightarrow>
     sorted (map (rec_key M) as) \<Longrightarrow> sorted (map (rec_key M) bs) \<Longrightarrow>
     (\<forall>r\<in>set (snd (merge_runs M as bs)). keys_ok M r) \<and>
     (\<forall>L. (\<forall>x\<in>set as \<union> set bs. L \<le> rec_key M x) \<longrightarrow>
          (\<forall>y\<in>set (snd (merge_runs M as bs)). L \<le> rec_key M y)) \<and>
     sorted (map (rec_key M) (snd (merge_runs M as bs)))"
  using assms
proof (induction M as bs rule: merge_runs.induct)
  case (1 M bs)
  then show ?case by simp
next
  case (2 M a as)
  then show ?case by simp
next
  case (3 M a as b bs)
  let ?k = "rec_key M"
  have ka: "keys_ok M a" and kb: "keys_ok M b" using "3.prems"(1) by simp_all
  have kas: "\<forall>r\<in>set as. keys_ok M r" and kbs: "\<forall>r\<in>set bs. keys_ok M r"
    using "3.prems"(1) by simp_all
  have sas: "sorted (map ?k as)" and sbs: "sorted (map ?k bs)"
    using "3.prems"(2,3) by simp_all
  have c: "compare_fields M a b = Inr (three_way (?k a) (?k b))"
    using ka kb by (rule compare_fields_rec_key)
  have a_le: "\<forall>x\<in>set as. ?k a \<le> ?k x" and b_le: "\<forall>x\<in>set bs. ?k b \<le> ?k x"
    using "3.prems"(2,3) by simp_all
  consider "?k a = ?k b" | "?k a < ?k b" | "?k b < ?k a" by (metis linorder_cases)
  then show ?case
  proof cases
    case 1
    then have r0: "three_way (?k a) (?k b) = 0" by (simp add: three_way_def)
    show ?thesis
    proof (cases "sum_fields M a b")
      case (Inl e)
      with c r0 show ?thesis by simp
    next
      case (Inr a')
      have k': "?k a' = ?k a" using "3.prems"(4) Inr by (rule sum_fields_rec_key)
      have ok': "keys_ok M a'" using "3.prems"(4) Inr ka by (rule sum_fields_keys_ok)
      have m: "merge_runs M (a # as) (b # bs) = merge_runs M (a' # as) bs"
        using c r0 Inr by simp
      let ?out = "snd (merge_runs M (a' # as) bs)"
      have p1: "\<forall>r\<in>set (a' # as) \<union> set bs. keys_ok M r"
        using ok' kas kbs by auto
      have p2: "sorted (map ?k (a' # as))"
        using sas a_le k' by simp
      have ih: "(\<forall>r\<in>set ?out. keys_ok M r) \<and>
            (\<forall>L. (\<forall>x\<in>set (a' # as) \<union> set bs. L \<le> ?k x) \<longrightarrow> (\<forall>y\<in>set ?out. L \<le> ?k y)) \<and>
            sorted (map ?k ?out)"
        using "3.IH"(1)[OF c r0 Inr p1 p2 sbs "3.prems"(4)] .
      have "\<forall>y\<in>set ?out. L \<le> ?k y"
        if "\<forall>x\<in>set (a # as) \<union> set (b # bs). L \<le> ?k x" for L
      proof -
        from that k' have "\<forall>x\<in>set (a' # as) \<union> set bs. L \<le> ?k x" by auto
        with ih show ?thesis by blast
      qed
      with ih show ?thesis
        unfolding m by blast
    qed
  next
    case 2
    then have r: "three_way (?k a) (?k b) < 0" by (simp add: three_way_def)
    then have r': "three_way (?k a) (?k b) \<noteq> 0" by simp
    let ?out = "snd (merge_runs M as (b # bs))"
    have m: "snd (merge_runs M (a # as) (b # bs)) = a # ?out"
      using c r by simp
    have p1: "\<forall>r\<in>set as \<union> set (b # bs). keys_ok M r"
      using kb kas kbs by auto
    have ih: "(\<forall>r\<in>set ?out. keys_ok M r) \<and>
            (\<forall>L. (\<forall>x\<in>set as \<union> set (b # bs). L \<le> ?k x) \<longrightarrow> (\<forall>y\<in>set ?out. L \<le> ?k y)) \<and>
            sorted (map ?k ?out)"
      using "3.IH"(2)[OF c r' r p1 sas "3.prems"(3,4)] .
    have "\<forall>x\<in>set as \<union> set (b # bs). ?k a \<le> ?k x"
      using a_le b_le 2 by auto
    with ih have lo: "\<forall>y\<in>set ?out. ?k a \<le> ?k y"
      by blast
    have bound: "\<forall>y\<in>set (a # ?out). L \<le> ?k y"
      if "\<forall>x\<in>set (a # as) \<union> set (b # bs). L \<le> ?k x" for L
    proof -
      from that have la: "L \<le> ?k a" and "\<forall>x\<in>set as \<union> set (b # bs). L \<le> ?k x" by auto
      with ih have "\<forall>y\<in>set ?out. L \<le> ?k y" by blast
      with la show ?thesis by simp
    qed
    have ih1: "\<forall>r\<in>set ?out. keys_ok M r" and ih3: "sorted (map ?k ?out)"
      using ih by blast+
    have "\<forall>r\<in>set (a # ?out). keys_ok M r" using ih1 ka by simp
    moreover have "sorted (map ?k (a # ?out))" using ih3 lo by simp
    ultimately show ?thesis
      unfolding m using bound by blast
  next
    case 3
    then have r: "three_way (?k a) (?k b) > 0" by (simp add: three_way_def)
    then have r': "three_way (?k a) (?k b) \<noteq> 0" "\<not> three_way (?k a) (?k b) < 0" by simp_all
    let ?out = "snd (merge_runs M (a # as) bs)"
    have m: "snd (merge_runs M (a # as) (b # bs)) = b # ?out"
      using c r by simp
    have p1: "\<forall>r\<in>set (a # as) \<union> set bs. keys_ok M r"
      using ka kas kbs by auto
    have ih: "(\<forall>r\<in>set ?out. keys_ok M r) \<and>
            (\<forall>L. (\<forall>x\<in>set (a # as) \<union> set bs. L \<le> ?k x) \<longrightarrow> (\<forall>y\<in>set ?out. L \<le> ?k y)) \<and>
            sorted (map ?k ?out)"
      using "3.IH"(3)[OF c r' p1 "3.prems"(2) sbs "3.prems"(4)] .
    have "\<forall>x\<in>set (a # as) \<union> set bs. ?k b \<le> ?k x"
      using a_le b_le 3 by auto
    with ih have lo: "\<forall>y\<in>set ?out. ?k b \<le> ?k y"
      by blast
    have bound: "\<forall>y\<in>set (b # ?out). L \<le> ?k y"
      if "\<forall>x\<in>set (a # as) \<union> set (b # bs). L \<le> ?k x" for L
    proof -
      from that have lb: "L \<le> ?k b" and "\<forall>x\<in>set (a # as) \<union> set bs. L \<le> ?k x" by auto
      with ih have "\<forall>y\<in>set ?out. L \<le> ?k y" by blast
      with lb show ?thesis by simp
    qed
    have ih1: "\<forall>r\<in>set ?out. keys_ok M r" and ih3: "sorted (map ?k ?out)"
      using ih by blast+
    have "\<forall>r\<in>set (b # ?out). keys_ok M r" using ih1 kb by simp
    moreover have "sorted (map ?k (b # ?out))" using ih3 lo by simp
    ultimately show ?thesis
      unfolding m using bound by blast
  qed
qed

section \<open>The output is sorted\<close>

lemma set_read_run: "set (read_run A) \<subseteq> split_tab ` set A"
  by (auto simp: read_run_def dest: set_takeWhileD)

lemma sorted_wrt_read_run:
  "sorted_wrt P (map split_tab A) \<Longrightarrow> sorted_wrt P (read_run A)"
proof -
  assume s: "sorted_wrt P (map split_tab A)"
  have "map split_tab A = read_run A @ map split_tab (dropWhile (\<lambda>l. l \<noteq> []) A)"
    unfolding read_run_def by (simp flip: map_append)
  with s show ?thesis by (simp add: sorted_wrt_append)
qed

text \<open>
  C7, as amended.  Let the sum positions be none of the key positions, all positions
  being counted from the front.  If in both input files every record has its key positions, with
  integer keys that parse, and the records of each file are in the order of
  \<open>compare_fields\<close>, then so are the records of the lines that \<open>do_merge\<close> writes,
  whether it returns or ends with an exception.  The condition on the positions is
  needed: \<open>sum_fields\<close> writes into the record that is compared next, so with
  position 0 both an integer key and a sum position the files 1, 3 and 1, 2 give 4, 3.
\<close>

theorem do_merge_sorted:
  assumes "roles_ok M" "keyed_run M A" "keyed_run M B" "sorted_run M A" "sorted_run M B"
  shows "sorted_run M (snd (do_merge M A B []))"
proof -
  let ?out = "snd (merge_runs M (read_run A) (read_run B))"
  have ok: "\<forall>r\<in>set (read_run A) \<union> set (read_run B). keys_ok M r"
    using assms(2,3) set_read_run[of A] set_read_run[of B] by (auto simp: keyed_run_def)
  have sa: "sorted (map (rec_key M) (read_run A))"
    using assms(4) ok sorted_wrt_read_run[of "rec_le M" A]
    by (simp add: sorted_run_def sorted_wrt_rec_le)
  have sb: "sorted (map (rec_key M) (read_run B))"
    using assms(5) ok sorted_wrt_read_run[of "rec_le M" B]
    by (simp add: sorted_run_def sorted_wrt_rec_le)
  have oks: "\<forall>r\<in>set ?out. keys_ok M r" and so: "sorted (map (rec_key M) ?out)"
    using merge_runs_sorted[OF assms(1) ok sa sb] by blast+
  have "\<forall>r\<in>set (read_run A) \<union> set (read_run B). wf_rec r"
    using set_read_run[of A] set_read_run[of B] by auto
  then have "\<forall>r\<in>set ?out. wf_rec r"
    by (rule merge_runs_wf)
  then have "map split_tab (map join_tab ?out) = ?out"
    by (simp add: map_idI split_join_tab)
  moreover have "sorted_wrt (rec_le M) ?out"
    using oks so by (simp add: sorted_wrt_rec_le)
  ultimately show ?thesis
    by (simp add: sorted_run_def do_merge_runs)
qed

theorem do_merge_sorted_witness:
  "roles_ok \<lparr>intkeys = [0], strkeys = [1], sums = [2]\<rparr> \<and>
   keyed_run \<lparr>intkeys = [0], strkeys = [1], sums = [2]\<rparr>
     [join_tab [''1'', ''a'', ''5''], join_tab [''2'', ''b'', ''1'']] \<and>
   keyed_run \<lparr>intkeys = [0], strkeys = [1], sums = [2]\<rparr>
     [join_tab [''1'', ''b'', ''2''], join_tab [''2'', ''b'', ''4'']] \<and>
   sorted_run \<lparr>intkeys = [0], strkeys = [1], sums = [2]\<rparr>
     [join_tab [''1'', ''a'', ''5''], join_tab [''2'', ''b'', ''1'']] \<and>
   sorted_run \<lparr>intkeys = [0], strkeys = [1], sums = [2]\<rparr>
     [join_tab [''1'', ''b'', ''2''], join_tab [''2'', ''b'', ''4'']] \<and>
   snd (do_merge \<lparr>intkeys = [0], strkeys = [1], sums = [2]\<rparr>
     [join_tab [''1'', ''a'', ''5''], join_tab [''2'', ''b'', ''1'']]
     [join_tab [''1'', ''b'', ''2''], join_tab [''2'', ''b'', ''4'']] []) =
     [join_tab [''1'', ''a'', ''5''], join_tab [''1'', ''b'', ''2''],
      join_tab [''2'', ''b'', ''5'']] \<and>
   sorted_run \<lparr>intkeys = [0], strkeys = [1], sums = [2]\<rparr>
     (snd (do_merge \<lparr>intkeys = [0], strkeys = [1], sums = [2]\<rparr>
       [join_tab [''1'', ''a'', ''5''], join_tab [''2'', ''b'', ''1'']]
       [join_tab [''1'', ''b'', ''2''], join_tab [''2'', ''b'', ''4'']] []))"
proof -
  let ?M = "\<lparr>intkeys = [0], strkeys = [1], sums = [2]\<rparr>"
  let ?A = "[join_tab [''1'', ''a'', ''5''], join_tab [''2'', ''b'', ''1'']]"
  let ?B = "[join_tab [''1'', ''b'', ''2''], join_tab [''2'', ''b'', ''4'']]"
  have r: "roles_ok ?M" by code_simp
  have ka: "keyed_run ?M ?A" by code_simp
  have kb: "keyed_run ?M ?B" by code_simp
  have sa: "sorted_run ?M ?A" by code_simp
  have sb: "sorted_run ?M ?B" by code_simp
  have out: "snd (do_merge ?M ?A ?B []) =
     [join_tab [''1'', ''a'', ''5''], join_tab [''1'', ''b'', ''2''],
      join_tab [''2'', ''b'', ''5'']]" by code_simp
  from do_merge_sorted[OF r ka kb sa sb] r ka kb sa sb out show ?thesis by blast
qed

theorem do_merge_sorted_counterexample:
  "keyed_run \<lparr>intkeys = [0], strkeys = [], sums = [0]\<rparr> [''1'', ''3''] \<and>
   keyed_run \<lparr>intkeys = [0], strkeys = [], sums = [0]\<rparr> [''1'', ''2''] \<and>
   sorted_run \<lparr>intkeys = [0], strkeys = [], sums = [0]\<rparr> [''1'', ''3''] \<and>
   sorted_run \<lparr>intkeys = [0], strkeys = [], sums = [0]\<rparr> [''1'', ''2''] \<and>
   do_merge \<lparr>intkeys = [0], strkeys = [], sums = [0]\<rparr> [''1'', ''3''] [''1'', ''2''] [] =
     (None, [''4'', ''3'']) \<and>
   \<not> sorted_run \<lparr>intkeys = [0], strkeys = [], sums = [0]\<rparr>
     (snd (do_merge \<lparr>intkeys = [0], strkeys = [], sums = [0]\<rparr> [''1'', ''3''] [''1'', ''2''] []))"
  by code_simp

section \<open>Records that compare 0\<close>

lemma compare_intkeys_not_zero: "compare_intkeys ks a b \<noteq> Inr (Some 0)"
  by (induction ks) (auto split: sum.splits option.splits)

lemma compare_strkeys_not_zero: "compare_strkeys ks a b \<noteq> Inr (Some 0)"
  by (induction ks) (auto split: sum.splits option.splits)

lemma compare_fields_zeroD:
  assumes "compare_fields M a b = Inr 0"
  shows "compare_intkeys (intkeys M) a b = Inr None"
    and "compare_strkeys (strkeys M) a b = Inr None"
    and "length a = length b"
  using assms compare_intkeys_not_zero[of "intkeys M" a b]
    compare_strkeys_not_zero[of "strkeys M" a b]
  by (auto simp: compare_fields_def split: sum.splits option.splits if_splits)

lemma compare_intkeys_zero_cong:
  "compare_intkeys ks a b = Inr None \<Longrightarrow> compare_intkeys ks a c = compare_intkeys ks b c"
  by (induction ks) (auto split: sum.splits option.splits if_splits)

lemma compare_strkeys_zero_cong:
  "compare_strkeys ks a b = Inr None \<Longrightarrow> compare_strkeys ks a c = compare_strkeys ks b c"
  by (induction ks) (auto split: sum.splits option.splits if_splits)

lemma compare_fields_zero_cong:
  assumes "compare_fields M a b = Inr 0"
  shows "compare_fields M a c = compare_fields M b c"
proof -
  have i: "compare_intkeys (intkeys M) a c = compare_intkeys (intkeys M) b c"
    using compare_fields_zeroD(1)[OF assms] by (rule compare_intkeys_zero_cong)
  have s: "compare_strkeys (strkeys M) a c = compare_strkeys (strkeys M) b c"
    using compare_fields_zeroD(2)[OF assms] by (rule compare_strkeys_zero_cong)
  show ?thesis
    unfolding compare_fields_def i s compare_fields_zeroD(3)[OF assms] by (rule refl)
qed

lemma compare_intkeys_getitem_cong:
  "\<forall>k\<in>set ks. getitem s k = getitem a k \<Longrightarrow> compare_intkeys ks s c = compare_intkeys ks a c"
  by (induction ks) (auto split: sum.splits option.splits)

lemma compare_strkeys_getitem_cong:
  "\<forall>k\<in>set ks. getitem s k = getitem a k \<Longrightarrow> compare_strkeys ks s c = compare_strkeys ks a c"
  by (induction ks) (auto split: sum.splits option.splits)

lemma getitem_nonneg:
  "0 \<le> i \<Longrightarrow> getitem r i = (if nat i < length r then Inr (field r i) else Inl IndexError)"
  by (simp add: getitem_def field_def py_index_nonneg)

lemma sum_fields_getitem_key:
  assumes "roles_ok M" "sum_fields M a b = Inr s" "k \<in> set (intkeys M @ strkeys M)"
  shows "getitem s k = getitem a k"
proof -
  have "0 \<le> k" using assms(1,3) by (auto simp: roles_ok_def)
  moreover have "length s = length a" using assms(2) by (simp add: sum_fields_length)
  moreover have "field s k = field a k" using assms by (rule sum_fields_field_key)
  ultimately show ?thesis by (simp add: getitem_nonneg)
qed

lemma compare_fields_sum_cong:
  assumes "roles_ok M" "sum_fields M a b = Inr s"
  shows "compare_fields M s c = compare_fields M a c"
proof -
  have i: "compare_intkeys (intkeys M) s c = compare_intkeys (intkeys M) a c"
    using sum_fields_getitem_key[OF assms] by (intro compare_intkeys_getitem_cong) simp
  have k: "compare_strkeys (strkeys M) s c = compare_strkeys (strkeys M) a c"
    using sum_fields_getitem_key[OF assms] by (intro compare_strkeys_getitem_cong) simp
  have l: "length s = length a" using assms(2) by (simp add: sum_fields_length)
  show ?thesis
    unfolding compare_fields_def i k l by (rule refl)
qed

lemma merge_runs_advance_both:
  "roles_ok M \<Longrightarrow> successively (rec_lt M) bs \<Longrightarrow>
   merge_runs M as bs = merge_advance_both M as bs"
proof (induction M as bs rule: merge_advance_both.induct)
  case (1 M bs)
  show ?case by simp
next
  case (2 M a as)
  show ?case by simp
next
  case (3 M a as b bs)
  have sbs: "successively (rec_lt M) bs"
    using "3.prems"(2) by (cases bs) simp_all
  show ?case
  proof (cases "compare_fields M a b")
    case (Inl e)
    then show ?thesis by simp
  next
    case (Inr r)
    consider "r = 0" | "r < 0" | "r > 0" by linarith
    then show ?thesis
    proof cases
      case 1
      show ?thesis
      proof (cases "sum_fields M a b")
        case (Inl e)
        with Inr 1 show ?thesis by simp
      next
        case s: (Inr s)
        have ih: "merge_runs M as bs = merge_advance_both M as bs"
          using "3.IH"(1)[OF Inr 1 s "3.prems"(1) sbs] .
        have "merge_runs M (s # as) bs = apsnd ((#) s) (merge_runs M as bs)"
        proof (cases bs)
          case Nil
          then show ?thesis by simp
        next
          case (Cons b2 bs')
          with "3.prems"(2) have "rec_lt M b b2" by simp
          then obtain r' where r': "compare_fields M b b2 = Inr r'" "r' < 0"
            by (auto simp: rec_lt_def split: sum.splits)
          have "compare_fields M s b2 = compare_fields M a b2"
            using "3.prems"(1) s by (rule compare_fields_sum_cong)
          also have "\<dots> = compare_fields M b b2"
            using Inr 1 by (intro compare_fields_zero_cong) simp
          finally show ?thesis using r' Cons by simp
        qed
        with Inr 1 s ih show ?thesis by simp
      qed
    next
      case 2
      with "3.IH"(2)[OF Inr _ 2 "3.prems"] Inr show ?thesis by simp
    next
      case 3
      with "3.IH"(3)[OF Inr _ _ "3.prems"(1) sbs] Inr show ?thesis by simp
    qed
  qed
qed

lemma read_run_no_empty: "[] \<notin> set A \<Longrightarrow> read_run A = map split_tab A"
proof -
  assume "[] \<notin> set A"
  then have tw: "takeWhile (\<lambda>l. l \<noteq> []) A = A"
    by (induction A) auto
  show ?thesis unfolding read_run_def tw by (rule refl)
qed

lemma read_run_Cons: "l \<noteq> [] \<Longrightarrow> read_run (l # A) = split_tab l # read_run A"
  by (simp add: read_run_def)

lemma do_merge_step_equal:
  assumes "la \<noteq> []" "lb \<noteq> []" "compare_fields M (split_tab la) (split_tab lb) = Inr 0"
    "sum_fields M (split_tab la) (split_tab lb) = Inr s"
  shows "do_merge M (la # A) (lb # B) out = do_merge M (join_tab s # A) B out"
proof -
  have ns: "s \<noteq> [] \<and> s \<noteq> [[]]"
    using assms(1,4) by (intro sum_fields_not_sentinel[OF assms(4)]) simp_all
  then have j: "join_tab s \<noteq> []" by (simp add: join_tab_empty)
  have "wf_rec s" using assms(4) by (rule sum_fields_wf) simp
  then have "split_tab (join_tab s) = s" by (rule split_join_tab)
  with j assms show ?thesis
    by (simp add: do_merge_runs read_run_Cons)
qed


text \<open>
  C1, as amended.  When the two current records compare 0, \<open>do_merge\<close> writes nothing
  at that step: the sum takes the place of the current record of the first input and
  only the second input advances, so that the merge goes on as if the first input began
  with the sum.  When the sum positions are none of the key positions (all positions
  counted from the front), neither file has an empty line, and each record of the second
  file compares below the next one, \<open>do_merge\<close> returns and writes what the algorithm
  that emits the sum and advances both inputs returns and writes.
\<close>

theorem do_merge_equal_keys:
  "(la \<noteq> [] \<and> lb \<noteq> [] \<and> compare_fields M (split_tab la) (split_tab lb) = Inr 0 \<and>
    sum_fields M (split_tab la) (split_tab lb) = Inr s \<longrightarrow>
      do_merge M (la # A') (lb # B') out = do_merge M (join_tab s # A') B' out) \<and>
   (roles_ok M \<and> [] \<notin> set A \<and> [] \<notin> set B \<and> successively (rec_lt M) (map split_tab B) \<longrightarrow>
      do_merge M A B [] =
        apsnd (map join_tab) (merge_advance_both M (map split_tab A) (map split_tab B)))"
proof (intro conjI impI)
  assume "la \<noteq> [] \<and> lb \<noteq> [] \<and> compare_fields M (split_tab la) (split_tab lb) = Inr 0 \<and>
    sum_fields M (split_tab la) (split_tab lb) = Inr s"
  then show "do_merge M (la # A') (lb # B') out = do_merge M (join_tab s # A') B' out"
    by (intro do_merge_step_equal) simp_all
next
  assume h: "roles_ok M \<and> [] \<notin> set A \<and> [] \<notin> set B \<and>
    successively (rec_lt M) (map split_tab B)"
  then have "merge_runs M (map split_tab A) (map split_tab B) =
      merge_advance_both M (map split_tab A) (map split_tab B)"
    by (intro merge_runs_advance_both) simp_all
  with h show "do_merge M A B [] =
      apsnd (map join_tab) (merge_advance_both M (map split_tab A) (map split_tab B))"
    by (simp add: do_merge_runs read_run_no_empty)
qed

theorem do_merge_equal_keys_witness:
  "join_tab [''1'', ''a'', ''5''] \<noteq> [] \<and> join_tab [''1'', ''a'', ''3''] \<noteq> [] \<and>
   compare_fields \<lparr>intkeys = [0], strkeys = [1], sums = [2]\<rparr>
     (split_tab (join_tab [''1'', ''a'', ''5''])) (split_tab (join_tab [''1'', ''a'', ''3''])) = Inr 0 \<and>
   sum_fields \<lparr>intkeys = [0], strkeys = [1], sums = [2]\<rparr>
     (split_tab (join_tab [''1'', ''a'', ''5''])) (split_tab (join_tab [''1'', ''a'', ''3''])) =
     Inr [''1'', ''a'', ''8''] \<and>
   do_merge \<lparr>intkeys = [0], strkeys = [1], sums = [2]\<rparr>
     (join_tab [''1'', ''a'', ''5''] # [join_tab [''2'', ''b'', ''1'']])
     (join_tab [''1'', ''a'', ''3''] # [join_tab [''3'', ''c'', ''1'']]) [] =
   do_merge \<lparr>intkeys = [0], strkeys = [1], sums = [2]\<rparr>
     (join_tab [''1'', ''a'', ''8''] # [join_tab [''2'', ''b'', ''1'']])
     [join_tab [''3'', ''c'', ''1'']] [] \<and>
   roles_ok \<lparr>intkeys = [0], strkeys = [1], sums = [2]\<rparr> \<and>
   [] \<notin> set [join_tab [''1'', ''a'', ''5''], join_tab [''2'', ''b'', ''1'']] \<and>
   [] \<notin> set [join_tab [''1'', ''a'', ''3''], join_tab [''3'', ''c'', ''1'']] \<and>
   successively (rec_lt \<lparr>intkeys = [0], strkeys = [1], sums = [2]\<rparr>)
     (map split_tab [join_tab [''1'', ''a'', ''3''], join_tab [''3'', ''c'', ''1'']]) \<and>
   do_merge \<lparr>intkeys = [0], strkeys = [1], sums = [2]\<rparr>
     [join_tab [''1'', ''a'', ''5''], join_tab [''2'', ''b'', ''1'']]
     [join_tab [''1'', ''a'', ''3''], join_tab [''3'', ''c'', ''1'']] [] =
     apsnd (map join_tab)
       (merge_advance_both \<lparr>intkeys = [0], strkeys = [1], sums = [2]\<rparr>
         (map split_tab [join_tab [''1'', ''a'', ''5''], join_tab [''2'', ''b'', ''1'']])
         (map split_tab [join_tab [''1'', ''a'', ''3''], join_tab [''3'', ''c'', ''1'']]))"
proof -
  let ?M = "\<lparr>intkeys = [0], strkeys = [1], sums = [2]\<rparr>"
  let ?la = "join_tab [''1'', ''a'', ''5'']" and ?lb = "join_tab [''1'', ''a'', ''3'']"
  let ?A = "[join_tab [''1'', ''a'', ''5''], join_tab [''2'', ''b'', ''1'']]"
  let ?B = "[join_tab [''1'', ''a'', ''3''], join_tab [''3'', ''c'', ''1'']]"
  have h1: "?la \<noteq> [] \<and> ?lb \<noteq> [] \<and> compare_fields ?M (split_tab ?la) (split_tab ?lb) = Inr 0 \<and>
    sum_fields ?M (split_tab ?la) (split_tab ?lb) = Inr [''1'', ''a'', ''8'']"
    by code_simp
  have h2: "roles_ok ?M \<and> [] \<notin> set ?A \<and> [] \<notin> set ?B \<and>
    successively (rec_lt ?M) (map split_tab ?B)"
    by code_simp
  from do_merge_equal_keys[of ?la ?lb ?M "[''1'', ''a'', ''8'']" "[join_tab [''2'', ''b'', ''1'']]"
      "[join_tab [''3'', ''c'', ''1'']]" "[]" ?A ?B] h1 h2
  show ?thesis by blast
qed

theorem do_merge_equal_keys_counterexample:
  "sorted_run \<lparr>intkeys = [0], strkeys = [1], sums = [2]\<rparr> [join_tab [''1'', ''a'', ''5'']] \<and>
   sorted_run \<lparr>intkeys = [0], strkeys = [1], sums = [2]\<rparr>
     [join_tab [''1'', ''a'', ''3''], join_tab [''1'', ''a'', ''4'']] \<and>
   do_merge \<lparr>intkeys = [0], strkeys = [1], sums = [2]\<rparr>
     [join_tab [''1'', ''a'', ''5'']]
     [join_tab [''1'', ''a'', ''3''], join_tab [''1'', ''a'', ''4'']] [] =
     (None, [join_tab [''1'', ''a'', ''12'']]) \<and>
   apsnd (map join_tab)
     (merge_advance_both \<lparr>intkeys = [0], strkeys = [1], sums = [2]\<rparr>
       (map split_tab [join_tab [''1'', ''a'', ''5'']])
       (map split_tab [join_tab [''1'', ''a'', ''3''], join_tab [''1'', ''a'', ''4'']])) =
     (None, [join_tab [''1'', ''a'', ''8''], join_tab [''1'', ''a'', ''4'']])"
  by code_simp

section \<open>int(str(i)) is i\<close>

lemma digit_char_cases:
  fixes d :: nat
  assumes "d < 10"
  shows "d = 0 \<or> d = 1 \<or> d = 2 \<or> d = 3 \<or> d = 4 \<or> d = 5 \<or> d = 6 \<or> d = 7 \<or> d = 8 \<or> d = 9"
  using assms by arith

lemma is_digit_digit_char: "d < 10 \<Longrightarrow> is_digit (digit_char d)"
  using digit_char_cases[of d] by (auto simp: is_digit_def digit_char_def char_of_eq_iff)

lemma digit_val_digit_char: "d < 10 \<Longrightarrow> digit_val (digit_char d) = d"
  by (simp add: digit_val_def digit_char_def)

lemma is_digit_not_space: "is_digit c \<Longrightarrow> \<not> is_space c"
  by (auto simp: is_digit_def is_space_def)

lemma is_digit_not_sign: "is_digit c \<Longrightarrow> c \<noteq> CHR ''-'' \<and> c \<noteq> CHR ''+'' \<and> c \<noteq> CHR ''_''"
  by (auto simp: is_digit_def)

lemma nat_digits_all_digits: "c \<in> set (nat_digits n) \<Longrightarrow> is_digit c"
proof (induction n rule: nat_digits.induct)
  case (1 n)
  show ?case
  proof (cases "n < 10")
    case True
    with "1.prems" show ?thesis
      by (subst (asm) nat_digits.simps) (simp add: is_digit_digit_char)
  next
    case False
    with "1.prems" have "c \<in> set (nat_digits (n div 10)) \<or> c = digit_char (n mod 10)"
      by (subst (asm) nat_digits.simps) auto
    with "1.IH"[OF False] show ?thesis
      by (auto simp: is_digit_digit_char)
  qed
qed

lemma digits_acc_append:
  "\<forall>c\<in>set xs. is_digit c \<Longrightarrow>
   digits_acc acc (xs @ [d]) = (case digits_acc acc xs of None \<Rightarrow> None | Some v \<Rightarrow> digits_acc v [d])"
  by (induction xs arbitrary: acc) auto

lemma digits_acc_all_digits: "\<forall>c\<in>set xs. is_digit c \<Longrightarrow> digits_acc acc xs \<noteq> None"
  by (induction xs arbitrary: acc) auto

lemma digits_acc_nat_digits:
  "digits_acc acc (nat_digits n) = Some (acc * 10 ^ length (nat_digits n) + n)"
proof (induction n arbitrary: acc rule: nat_digits.induct)
  case (1 n)
  show ?case
  proof (cases "n < 10")
    case True
    then show ?thesis
      by (subst (1 2) nat_digits.simps) (simp add: is_digit_digit_char digit_val_digit_char)
  next
    case False
    let ?xs = "nat_digits (n div 10)"
    have e: "nat_digits n = ?xs @ [digit_char (n mod 10)]"
      using False by (subst nat_digits.simps) simp
    have d: "\<forall>c\<in>set ?xs. is_digit c" by (simp add: nat_digits_all_digits)
    have "digits_acc acc (nat_digits n) =
        digits_acc (acc * 10 ^ length ?xs + n div 10) [digit_char (n mod 10)]"
      unfolding e by (simp add: digits_acc_append[OF d] "1.IH"[OF False])
    also have "\<dots> = Some (10 * (acc * 10 ^ length ?xs + n div 10) + n mod 10)"
      by (simp add: is_digit_digit_char digit_val_digit_char)
    also have "10 * (acc * 10 ^ length ?xs + n div 10) + n mod 10 =
        acc * 10 ^ length (nat_digits n) + n"
      unfolding e by (simp add: algebra_simps)
    finally show ?thesis .
  qed
qed

lemma hd_nat_digits: "is_digit (hd (nat_digits n))"
  using nat_digits_all_digits[of "hd (nat_digits n)" n] by simp

lemma last_nat_digits: "is_digit (last (nat_digits n))"
  using nat_digits_all_digits[of "last (nat_digits n)" n] by simp

lemma parse_digits_nat_digits: "parse_digits (nat_digits n) = Some n"
  by (simp add: parse_digits_def hd_nat_digits digits_acc_nat_digits)

lemma strip_no_space:
  assumes "s \<noteq> []" "\<not> is_space (hd s)" "\<not> is_space (last s)"
  shows "strip s = s"
proof -
  have 1: "dropWhile is_space s = s"
    using assms(1,2) by (cases s) simp_all
  have "rev s \<noteq> []" "\<not> is_space (hd (rev s))"
    using assms(1,3) by (simp_all add: hd_rev)
  then have 2: "dropWhile is_space (rev s) = rev s"
    by (cases "rev s") simp_all
  show ?thesis
    unfolding strip_def 1 2 by simp
qed

lemma py_int_py_str: "py_int (py_str i) = Some i"
proof (cases "i < 0")
  case True
  let ?d = "nat_digits (nat (- i))"
  have "\<not> is_space (CHR ''-'')" by (simp add: is_space_def)
  moreover have "\<not> is_space (last (CHR ''-'' # ?d))"
    using last_nat_digits[of "nat (- i)"] by (simp add: is_digit_not_space)
  ultimately have s: "strip (CHR ''-'' # ?d) = CHR ''-'' # ?d"
    by (intro strip_no_space) simp_all
  show ?thesis
    using True by (simp add: py_int_def py_str_def s parse_digits_nat_digits)
next
  case False
  let ?d = "nat_digits (nat i)"
  have s: "strip ?d = ?d"
    using last_nat_digits[of "nat i"] hd_nat_digits[of "nat i"]
    by (intro strip_no_space) (simp_all add: is_digit_not_space)
  obtain c cs where c: "?d = c # cs" by (cases ?d) simp_all
  with hd_nat_digits[of "nat i"] have "is_digit c" by simp
  then have "c \<noteq> CHR ''-''" "c \<noteq> CHR ''+''" by (simp_all add: is_digit_not_sign)
  moreover have "parse_digits (c # cs) = Some (nat i)"
    using parse_digits_nat_digits[of "nat i"] c by simp
  moreover have "strip (c # cs) = c # cs"
    using s c by simp
  ultimately show ?thesis
    using False by (simp add: py_int_def py_str_def c)
qed

section \<open>The result of sum_fields; runs without a common key\<close>

lemma sum_loop_result:
  assumes "\<forall>k\<in>set ks. 0 \<le> k \<and> nat k < length xs \<and>
             py_int (field xs k) \<noteq> None \<and> py_int (field ys k) \<noteq> None"
    and "distinct ks" and "length ys = length xs"
  shows "\<exists>xs'. sum_loop ks xs ys = Inr xs' \<and> length xs' = length xs \<and>
           (\<forall>p<length xs. xs' ! p =
              (if int p \<in> set ks then py_str (int_field xs (int p) + int_field ys (int p))
               else xs ! p))"
  using assms
proof (induction ks arbitrary: xs)
  case Nil
  then show ?case by simp
next
  case (Cons k ks)
  let ?m = "int_field xs k" and ?n = "int_field ys k"
  let ?xs1 = "xs[nat k := py_str (?m + ?n)]"
  have k: "0 \<le> k" "nat k < length xs" "nat k < length ys"
    and pm: "py_int (field xs k) = Some ?m" and pn: "py_int (field ys k) = Some ?n"
    using Cons.prems by (simp_all add: py_int_field)
  have gx: "getitem xs k = Inr (field xs k)" and gy: "getitem ys k = Inr (field ys k)"
    using k by (simp_all add: getitem_nonneg)
  have st: "setitem xs k (py_str (?m + ?n)) = Inr ?xs1"
    using k by (simp add: setitem_def py_index_nonneg)
  have step: "sum_loop (k # ks) xs ys = sum_loop ks ?xs1 ys"
    by (simp add: gx gy pm pn st)
  have other: "field ?xs1 k' = field xs k'" if "k' \<in> set ks" for k'
  proof -
    from that Cons.prems have "0 \<le> k'" "k' \<noteq> k" by auto
    with k show ?thesis by (simp add: field_nonneg)
  qed
  have "\<forall>k'\<in>set ks. 0 \<le> k' \<and> nat k' < length ?xs1 \<and>
             py_int (field ?xs1 k') \<noteq> None \<and> py_int (field ys k') \<noteq> None"
    using Cons.prems(1) other by simp
  moreover have "distinct ks" "length ys = length ?xs1"
    using Cons.prems by simp_all
  ultimately obtain xs' where r: "sum_loop ks ?xs1 ys = Inr xs'" "length xs' = length ?xs1"
    and v: "\<forall>p<length ?xs1. xs' ! p =
              (if int p \<in> set ks then py_str (int_field ?xs1 (int p) + int_field ys (int p))
               else ?xs1 ! p)"
    using Cons.IH[of ?xs1] by blast
  have "xs' ! p = (if int p \<in> set (k # ks)
                    then py_str (int_field xs (int p) + int_field ys (int p)) else xs ! p)"
    if p: "p < length xs" for p
  proof (cases "int p \<in> set ks")
    case True
    with other have "int_field ?xs1 (int p) = int_field xs (int p)"
      by (simp add: int_field_def)
    with v p True show ?thesis by simp
  next
    case False
    show ?thesis
    proof (cases "int p = k")
      case True
      then have "p = nat k" by simp
      with v p False True k show ?thesis by simp
    next
      case ne: False
      then have "p \<noteq> nat k" using k by auto
      with v p False ne show ?thesis by simp
    qed
  qed
  with r step show ?case by simp
qed

lemma merge_runs_disjoint:
  "\<forall>r\<in>set as \<union> set bs. keys_ok M r \<Longrightarrow>
   \<forall>x\<in>set as. \<forall>y\<in>set bs. rec_key M x \<noteq> rec_key M y \<Longrightarrow>
   fst (merge_runs M as bs) = None \<and> mset (snd (merge_runs M as bs)) = mset as + mset bs"
proof (induction M as bs rule: merge_runs.induct)
  case (1 M bs)
  show ?case by simp
next
  case (2 M a as)
  show ?case by simp
next
  case (3 M a as b bs)
  let ?k = "rec_key M"
  have ka: "keys_ok M a" and kb: "keys_ok M b" using "3.prems"(1) by simp_all
  have c: "compare_fields M a b = Inr (three_way (?k a) (?k b))"
    using ka kb by (rule compare_fields_rec_key)
  have ne: "?k a \<noteq> ?k b" using "3.prems"(2) by simp
  then consider "?k a < ?k b" | "?k b < ?k a" by (metis linorder_cases)
  then show ?case
  proof cases
    case 1
    then have r: "three_way (?k a) (?k b) < 0" "three_way (?k a) (?k b) \<noteq> 0"
      by (simp_all add: three_way_def)
    have "\<forall>r\<in>set as \<union> set (b # bs). keys_ok M r"
      using "3.prems"(1) by auto
    moreover have "\<forall>x\<in>set as. \<forall>y\<in>set (b # bs). ?k x \<noteq> ?k y"
      using "3.prems"(2) by auto
    ultimately have "fst (merge_runs M as (b # bs)) = None \<and>
        mset (snd (merge_runs M as (b # bs))) = mset as + mset (b # bs)"
      by (rule "3.IH"(2)[OF c r(2,1)])
    with c r show ?thesis by simp
  next
    case 2
    then have r: "three_way (?k a) (?k b) \<noteq> 0" "\<not> three_way (?k a) (?k b) < 0"
      by (simp_all add: three_way_def)
    have "\<forall>r\<in>set (a # as) \<union> set bs. keys_ok M r"
      using "3.prems"(1) by auto
    moreover have "\<forall>x\<in>set (a # as). \<forall>y\<in>set bs. ?k x \<noteq> ?k y"
      using "3.prems"(2) by auto
    ultimately have "fst (merge_runs M (a # as) bs) = None \<and>
        mset (snd (merge_runs M (a # as) bs)) = mset (a # as) + mset bs"
      by (rule "3.IH"(3)[OF c r])
    with c r show ?thesis by simp
  qed
qed

section \<open>Runs with one common key\<close>

lemma filter_single_mset:
  assumes "mset out = add_mset s (mset as + mset bs)" "P s" "filter P as = []" "filter P bs = []"
  shows "filter P out = [s]"
proof -
  have "mset (filter P out) = filter_mset P (mset out)" by simp
  also have "\<dots> = filter_mset P (add_mset s (mset as + mset bs))" by (simp only: assms(1))
  also have "\<dots> = add_mset s (mset (filter P as) + mset (filter P bs))"
    using assms(2) by simp
  also have "\<dots> = {#s#}" by (simp add: assms(3,4))
  finally have "mset (filter P out) = {#s#}" .
  then show ?thesis by (simp only: mset_single_iff)
qed

lemma merge_runs_one_pair:
  assumes "roles_ok M"
  shows "\<forall>r\<in>set as \<union> set bs. keys_ok M r \<Longrightarrow>
     sorted (map (rec_key M) as) \<Longrightarrow> sorted (map (rec_key M) bs) \<Longrightarrow>
     filter (\<lambda>r. rec_key M r = K) as = [a0] \<Longrightarrow>
     filter (\<lambda>r. rec_key M r = K) bs = [b0] \<Longrightarrow>
     \<forall>x\<in>set as. \<forall>y\<in>set bs. rec_key M x = rec_key M y \<longrightarrow> rec_key M x = K \<Longrightarrow>
     sum_fields M a0 b0 = Inr s \<Longrightarrow>
     fst (merge_runs M as bs) = None \<and>
     filter (\<lambda>r. rec_key M r = K) (snd (merge_runs M as bs)) = [s] \<and>
     set (snd (merge_runs M as bs)) \<subseteq> insert s (set as \<union> set bs)"
  using assms
proof (induction M as bs rule: merge_runs.induct)
  case (1 M bs)
  then show ?case by simp
next
  case (2 M a as)
  then show ?case by simp
next
  case (3 M a as b bs)
  let ?k = "rec_key M"
  let ?Q = "\<lambda>r. rec_key M r = K"
  have ka: "keys_ok M a" and kb: "keys_ok M b" using "3.prems"(1) by simp_all
  have kas: "\<forall>r\<in>set as. keys_ok M r" and kbs: "\<forall>r\<in>set bs. keys_ok M r"
    using "3.prems"(1) by simp_all
  have sas: "sorted (map ?k as)" and sbs: "sorted (map ?k bs)"
    using "3.prems"(2,3) by simp_all
  have a_le: "\<forall>x\<in>set as. ?k a \<le> ?k x" and b_le: "\<forall>x\<in>set bs. ?k b \<le> ?k x"
    using "3.prems"(2,3) by simp_all
  have c: "compare_fields M a b = Inr (three_way (?k a) (?k b))"
    using ka kb by (rule compare_fields_rec_key)
  have "a0 \<in> set (filter ?Q (a # as))"
    unfolding "3.prems"(4) by simp
  then have a0: "a0 \<in> set (a # as)" "?k a0 = K"
    by (simp_all only: set_filter mem_Collect_eq)
  have "b0 \<in> set (filter ?Q (b # bs))"
    unfolding "3.prems"(5) by simp
  then have b0: "b0 \<in> set (b # bs)" "?k b0 = K"
    by (simp_all only: set_filter mem_Collect_eq)
  consider "?k a = ?k b" | "?k a < ?k b" | "?k b < ?k a" by (metis linorder_cases)
  then show ?case
  proof cases
    case 1
    then have r0: "three_way (?k a) (?k b) = 0" by (simp add: three_way_def)
    from 1 "3.prems"(6) have aK: "?k a = K" and bK: "?k b = K" by simp_all
    with "3.prems"(4,5) have e: "a0 = a" "filter ?Q as = []" "b0 = b" "filter ?Q bs = []"
      by simp_all
    with "3.prems"(7) have s: "sum_fields M a b = Inr s" by simp
    have ks: "?k s = K" using sum_fields_rec_key[OF "3.prems"(8) s] aK by simp
    have oks: "keys_ok M s" using "3.prems"(8) s ka by (rule sum_fields_keys_ok)
    have m: "merge_runs M (a # as) (b # bs) = merge_runs M (s # as) bs"
      using c r0 s by simp
    have nb: "\<forall>y\<in>set bs. ?k y \<noteq> K"
      using e(4) by (simp add: filter_empty_conv)
    have na: "\<forall>x\<in>set as. ?k x \<noteq> K"
      using e(2) by (simp add: filter_empty_conv)
    have "\<forall>x\<in>set (s # as). \<forall>y\<in>set bs. ?k x \<noteq> ?k y"
    proof (intro ballI)
      fix x y assume x: "x \<in> set (s # as)" and y: "y \<in> set bs"
      show "?k x \<noteq> ?k y"
      proof (cases "x = s")
        case True
        with ks nb y show ?thesis by auto
      next
        case False
        with x have xa: "x \<in> set as" by simp
        show ?thesis
        proof
          assume "?k x = ?k y"
          with "3.prems"(6) xa y have "?k x = K" by simp
          with na xa show False by blast
        qed
      qed
    qed
    moreover have "\<forall>r\<in>set (s # as) \<union> set bs. keys_ok M r"
      using oks kas kbs by auto
    ultimately have d: "fst (merge_runs M (s # as) bs) = None"
      "mset (snd (merge_runs M (s # as) bs)) = mset (s # as) + mset bs"
      using merge_runs_disjoint[of "s # as" bs M] by blast+
    from d(2) have ms: "mset (snd (merge_runs M (s # as) bs)) = add_mset s (mset as + mset bs)"
      by simp
    have f: "filter ?Q (snd (merge_runs M (s # as) bs)) = [s]"
      using ms ks e(2,4) by (rule filter_single_mset)
    have "set (snd (merge_runs M (s # as) bs)) = set_mset (add_mset s (mset as + mset bs))"
      using ms by (metis set_mset_mset)
    then have "set (snd (merge_runs M (s # as) bs)) \<subseteq> insert s (set (a # as) \<union> set (b # bs))"
      by auto
    with d(1) f show ?thesis unfolding m by simp
  next
    case 2
    then have r: "three_way (?k a) (?k b) \<noteq> 0" "three_way (?k a) (?k b) < 0"
      by (simp_all add: three_way_def)
    have nQ: "?k a \<noteq> K"
    proof
      assume "?k a = K"
      moreover have "?k b \<le> ?k b0" using b0(1) b_le by auto
      ultimately show False using 2 b0(2) by simp
    qed
    let ?out = "snd (merge_runs M as (b # bs))"
    have m: "merge_runs M (a # as) (b # bs) = apsnd ((#) a) (merge_runs M as (b # bs))"
      using c r by simp
    have p1: "\<forall>r\<in>set as \<union> set (b # bs). keys_ok M r"
      using kb kas kbs by auto
    have p4: "filter ?Q as = [a0]" using "3.prems"(4) nQ by simp
    have p6: "\<forall>x\<in>set as. \<forall>y\<in>set (b # bs). ?k x = ?k y \<longrightarrow> ?k x = K"
      using "3.prems"(6) by simp
    have ih: "fst (merge_runs M as (b # bs)) = None \<and> filter ?Q ?out = [s] \<and>
        set ?out \<subseteq> insert s (set as \<union> set (b # bs))"
      using "3.IH"(2)[OF c r p1 sas "3.prems"(3) p4 "3.prems"(5) p6 "3.prems"(7,8)] .
    then have "set (a # ?out) \<subseteq> insert s (set (a # as) \<union> set (b # bs))" by auto
    with ih nQ show ?thesis unfolding m by simp
  next
    case 3
    then have r: "three_way (?k a) (?k b) \<noteq> 0" "\<not> three_way (?k a) (?k b) < 0"
      by (simp_all add: three_way_def)
    have nQ: "?k b \<noteq> K"
    proof
      assume "?k b = K"
      moreover have "?k a \<le> ?k a0" using a0(1) a_le by auto
      ultimately show False using 3 a0(2) by simp
    qed
    let ?out = "snd (merge_runs M (a # as) bs)"
    have m: "merge_runs M (a # as) (b # bs) = apsnd ((#) b) (merge_runs M (a # as) bs)"
      using c r by simp
    have p1: "\<forall>r\<in>set (a # as) \<union> set bs. keys_ok M r"
      using ka kas kbs by auto
    have p5: "filter ?Q bs = [b0]" using "3.prems"(5) nQ by simp
    have p6: "\<forall>x\<in>set (a # as). \<forall>y\<in>set bs. ?k x = ?k y \<longrightarrow> ?k x = K"
      using "3.prems"(6) by simp
    have ih: "fst (merge_runs M (a # as) bs) = None \<and> filter ?Q ?out = [s] \<and>
        set ?out \<subseteq> insert s (set (a # as) \<union> set bs)"
      using "3.IH"(3)[OF c r p1 "3.prems"(2) sbs "3.prems"(4) p5 p6 "3.prems"(7,8)] .
    then have "set (b # ?out) \<subseteq> insert s (set (a # as) \<union> set (b # bs))" by auto
    with ih nQ show ?thesis unfolding m by simp
  qed
qed

section \<open>One key-equal pair\<close>

lemma filter_unique_index:
  assumes "i < length xs" "\<forall>i'<length xs. P (xs ! i') \<longleftrightarrow> i' = i"
  shows "filter P xs = [xs ! i]"
proof -
  have x: "xs = take i xs @ xs ! i # drop (Suc i) xs"
    using assms(1) by (rule id_take_nth_drop)
  have t: "filter P (take i xs) = []"
  proof -
    have "\<not> P y" if "y \<in> set (take i xs)" for y
    proof -
      from that obtain n where n: "n < length (take i xs)" "take i xs ! n = y"
        by (auto simp: in_set_conv_nth)
      then have "n < i" "n < length xs" "xs ! n = y" using assms(1) by simp_all
      with assms(2) show ?thesis by auto
    qed
    then show ?thesis by (simp add: filter_empty_conv)
  qed
  have d: "filter P (drop (Suc i) xs) = []"
  proof -
    have "\<not> P y" if "y \<in> set (drop (Suc i) xs)" for y
    proof -
      from that obtain n where n: "n < length (drop (Suc i) xs)" "drop (Suc i) xs ! n = y"
        by (auto simp: in_set_conv_nth)
      then have "Suc i + n < length xs" "xs ! (Suc i + n) = y" by simp_all
      with assms(2) show ?thesis by auto
    qed
    then show ?thesis by (simp add: filter_empty_conv)
  qed
  have "P (xs ! i)" using assms by simp
  then have "filter P (take i xs @ xs ! i # drop (Suc i) xs) = [xs ! i]"
    by (simp add: t d)
  with x show ?thesis by simp
qed

lemma compare_fields_zero_iff:
  "keys_ok M a \<Longrightarrow> keys_ok M b \<Longrightarrow> compare_fields M a b = Inr 0 \<longleftrightarrow> rec_key M a = rec_key M b"
  by (auto simp: compare_fields_rec_key three_way_def)

text \<open>
  C6, as amended.  Let the sum positions be distinct and none of the key positions,
  all positions counted from the front.  Let two files without empty lines be sorted, every record
  having its key fields, with integer keys that parse, and let the records of lines
  \<open>i\<close> of the first and \<open>j\<close> of the second be the only pair, one record from each
  file, that compares 0, their sum fields being there and parsing.  Then \<open>do_merge\<close>
  returns, and exactly one line of its output compares 0 with that pair: its record has
  the fields of the first record, but at each sum position the numeral of the sum of
  the two values, which parses to that sum.  The conditions on the positions are
  needed: with position 0 both an integer key and a sum position the files 1 and 1
  give 2, a record of another key, and with the sum positions 2, 2 the records
  (1, a, 5) and (1, a, 3) give (1, a, 11).
\<close>

theorem do_merge_one_shared_key:
  assumes "roles_ok M" "distinct (sums M)"
    and "[] \<notin> set A" "[] \<notin> set B"
    and "keyed_run M A" "keyed_run M B" "sorted_run M A" "sorted_run M B"
    and "i < length A" "j < length B"
    and "\<forall>i'<length A. \<forall>j'<length B.
           (compare_fields M (split_tab (A ! i')) (split_tab (B ! j')) = Inr 0) = (i' = i \<and> j' = j)"
    and "\<forall>p\<in>set (sums M). nat p < length (split_tab (A ! i)) \<and>
           py_int (field (split_tab (A ! i)) p) \<noteq> None \<and>
           py_int (field (split_tab (B ! j)) p) \<noteq> None"
  shows "\<exists>s. fst (do_merge M A B []) = None \<and>
           filter (\<lambda>l. compare_fields M (split_tab l) (split_tab (A ! i)) = Inr 0)
             (snd (do_merge M A B [])) = [join_tab s] \<and>
           length s = length (split_tab (A ! i)) \<and>
           (\<forall>p<length s.
              if int p \<in> set (sums M)
              then s ! p = py_str (int_field (split_tab (A ! i)) (int p) +
                                   int_field (split_tab (B ! j)) (int p)) \<and>
                   py_int (s ! p) = Some (int_field (split_tab (A ! i)) (int p) +
                                          int_field (split_tab (B ! j)) (int p))
              else s ! p = split_tab (A ! i) ! p)"
proof -
  let ?k = "rec_key M"
  let ?as = "map split_tab A" and ?bs = "map split_tab B"
  let ?a = "split_tab (A ! i)" and ?b = "split_tab (B ! j)"
  let ?K = "?k ?a"
  let ?Q = "\<lambda>r. ?k r = ?K"
  have ai: "?as ! i = ?a" and bj: "?bs ! j = ?b"
    using assms(9,10) by simp_all
  have ok: "\<forall>r\<in>set ?as \<union> set ?bs. keys_ok M r"
    using assms(5,6) by (auto simp: keyed_run_def)
  have oka: "keys_ok M (split_tab (A ! n))" if "n < length A" for n
    using that assms(5) by (simp add: keyed_run_def)
  have okb: "keys_ok M (split_tab (B ! n))" if "n < length B" for n
    using that assms(6) by (simp add: keyed_run_def)
  have sa: "sorted (map ?k ?as)"
    using assms(7) ok by (simp add: sorted_run_def sorted_wrt_rec_le)
  have sb: "sorted (map ?k ?bs)"
    using assms(8) ok by (simp add: sorted_run_def sorted_wrt_rec_le)
  have H: "?k (split_tab (A ! i')) = ?k (split_tab (B ! j')) \<longleftrightarrow> i' = i \<and> j' = j"
    if "i' < length A" "j' < length B" for i' j'
  proof -
    have "compare_fields M (split_tab (A ! i')) (split_tab (B ! j')) = Inr 0 \<longleftrightarrow>
        i' = i \<and> j' = j"
      using assms(11) that by blast
    then show ?thesis
      unfolding compare_fields_zero_iff[OF oka[OF that(1)] okb[OF that(2)]] .
  qed
  have Kb: "?k ?b = ?K" using H[OF assms(9,10)] by simp
  have c0: "compare_fields M ?a ?b = Inr 0"
    using assms(9,10,11) by simp
  have len: "length ?b = length ?a"
    using compare_fields_zero_length[OF c0] by simp
  have fa: "filter ?Q ?as = [?a]"
  proof -
    have "\<forall>i'<length ?as. ?Q (?as ! i') \<longleftrightarrow> i' = i"
      using H[OF _ assms(10)] Kb by auto
    with filter_unique_index[of i ?as ?Q] assms(9) ai show ?thesis by simp
  qed
  have fb: "filter ?Q ?bs = [?b]"
  proof -
    have "?Q (?bs ! j') \<longleftrightarrow> j' = j" if "j' < length ?bs" for j'
    proof -
      from that have j': "j' < length B" by simp
      have "?K = ?k (split_tab (B ! j')) \<longleftrightarrow> j' = j"
        using H[OF assms(9) j'] by simp
      then have "?k (split_tab (B ! j')) = ?K \<longleftrightarrow> j' = j"
        by (simp only: eq_commute[of "?k (split_tab (B ! j'))"])
      with j' show ?thesis by simp
    qed
    then have "\<forall>j'<length ?bs. ?Q (?bs ! j') \<longleftrightarrow> j' = j" by blast
    with filter_unique_index[of j ?bs ?Q] assms(10) bj show ?thesis by simp
  qed
  have p6: "\<forall>x\<in>set ?as. \<forall>y\<in>set ?bs. ?k x = ?k y \<longrightarrow> ?k x = ?K"
  proof (intro ballI impI)
    fix x y assume "x \<in> set ?as" "y \<in> set ?bs" and e: "?k x = ?k y"
    then obtain i' j' where "i' < length A" "x = split_tab (A ! i')"
      "j' < length B" "y = split_tab (B ! j')"
      by (auto simp: in_set_conv_nth)
    with H[of i' j'] e show "?k x = ?K" by simp
  qed
  have "\<forall>p\<in>set (sums M). 0 \<le> p \<and> nat p < length ?a \<and>
           py_int (field ?a p) \<noteq> None \<and> py_int (field ?b p) \<noteq> None"
    using assms(1,12) by (simp add: roles_ok_def)
  from sum_loop_result[OF this assms(2) len]
  obtain s where s: "sum_loop (sums M) ?a ?b = Inr s" "length s = length ?a"
    and v: "\<forall>p<length ?a. s ! p =
              (if int p \<in> set (sums M) then py_str (int_field ?a (int p) + int_field ?b (int p))
               else ?a ! p)"
    by blast
  have sf: "sum_fields M ?a ?b = Inr s"
    using s(1) len by (simp add: sum_fields_def)
  let ?out = "snd (merge_runs M ?as ?bs)"
  have one: "fst (merge_runs M ?as ?bs) = None" "filter ?Q ?out = [s]"
    "set ?out \<subseteq> insert s (set ?as \<union> set ?bs)"
    using merge_runs_one_pair[OF assms(1) ok sa sb fa fb p6 sf] by blast+
  have oks: "keys_ok M s"
    using assms(1) sf oka[OF assms(9)] by (rule sum_fields_keys_ok)
  have wfs: "wf_rec s"
    using sf by (rule sum_fields_wf) simp
  have out_ok: "keys_ok M r \<and> wf_rec r" if "r \<in> set ?out" for r
  proof -
    from that one(3) have "r = s \<or> r \<in> set ?as \<union> set ?bs" by blast
    then show ?thesis
    proof
      assume "r = s"
      with oks wfs show ?thesis by simp
    next
      assume r: "r \<in> set ?as \<union> set ?bs"
      with ok have "keys_ok M r" by blast
      moreover from r have "wf_rec r" by auto
      ultimately show ?thesis by simp
    qed
  qed
  have dm: "do_merge M A B [] = apsnd (map join_tab) (merge_runs M ?as ?bs)"
    using assms(3,4) by (simp add: do_merge_runs read_run_no_empty)
  have "filter (\<lambda>l. compare_fields M (split_tab l) ?a = Inr 0) (map join_tab ?out) =
        map join_tab (filter (\<lambda>r. compare_fields M (split_tab (join_tab r)) ?a = Inr 0) ?out)"
    by (simp add: filter_map comp_def)
  also have "filter (\<lambda>r. compare_fields M (split_tab (join_tab r)) ?a = Inr 0) ?out =
        filter ?Q ?out"
  proof (rule filter_cong[OF refl])
    fix r assume "r \<in> set ?out"
    then have "keys_ok M r" "split_tab (join_tab r) = r"
      using out_ok by (simp_all add: split_join_tab)
    then show "(compare_fields M (split_tab (join_tab r)) ?a = Inr 0) = (?k r = ?K)"
      using oka[OF assms(9)] by (simp add: compare_fields_zero_iff)
  qed
  finally have f: "filter (\<lambda>l. compare_fields M (split_tab l) ?a = Inr 0) (snd (do_merge M A B [])) =
      [join_tab s]"
    using one(2) dm by simp
  have "fst (do_merge M A B []) = None"
    using one(1) dm by simp
  moreover have "\<forall>p<length s.
              if int p \<in> set (sums M)
              then s ! p = py_str (int_field ?a (int p) + int_field ?b (int p)) \<and>
                   py_int (s ! p) = Some (int_field ?a (int p) + int_field ?b (int p))
              else s ! p = ?a ! p"
    using v s(2) by (simp add: py_int_py_str)
  ultimately show ?thesis
    using f s(2) by blast
qed


theorem do_merge_one_shared_key_witness:
  "roles_ok \<lparr>intkeys = [0], strkeys = [1], sums = [2]\<rparr> \<and>
   distinct (sums \<lparr>intkeys = [0], strkeys = [1], sums = [2]\<rparr>) \<and>
   [] \<notin> set [join_tab [''1'', ''a'', ''5'']] \<and> [] \<notin> set [join_tab [''1'', ''a'', ''3'']] \<and>
   keyed_run \<lparr>intkeys = [0], strkeys = [1], sums = [2]\<rparr> [join_tab [''1'', ''a'', ''5'']] \<and>
   keyed_run \<lparr>intkeys = [0], strkeys = [1], sums = [2]\<rparr> [join_tab [''1'', ''a'', ''3'']] \<and>
   sorted_run \<lparr>intkeys = [0], strkeys = [1], sums = [2]\<rparr> [join_tab [''1'', ''a'', ''5'']] \<and>
   sorted_run \<lparr>intkeys = [0], strkeys = [1], sums = [2]\<rparr> [join_tab [''1'', ''a'', ''3'']] \<and>
   compare_fields \<lparr>intkeys = [0], strkeys = [1], sums = [2]\<rparr>
     (split_tab (join_tab [''1'', ''a'', ''5''])) (split_tab (join_tab [''1'', ''a'', ''3''])) = Inr 0 \<and>
   do_merge \<lparr>intkeys = [0], strkeys = [1], sums = [2]\<rparr>
     [join_tab [''1'', ''a'', ''5'']] [join_tab [''1'', ''a'', ''3'']] [] =
     (None, [join_tab [''1'', ''a'', ''8'']]) \<and>
   (\<exists>s. filter (\<lambda>l. compare_fields \<lparr>intkeys = [0], strkeys = [1], sums = [2]\<rparr>
                   (split_tab l) (split_tab ([join_tab [''1'', ''a'', ''5'']] ! 0)) = Inr 0)
            (snd (do_merge \<lparr>intkeys = [0], strkeys = [1], sums = [2]\<rparr>
               [join_tab [''1'', ''a'', ''5'']] [join_tab [''1'', ''a'', ''3'']] [])) = [join_tab s] \<and>
        py_int (s ! 2) = Some 8)"
proof -
  let ?M = "\<lparr>intkeys = [0], strkeys = [1], sums = [2]\<rparr>"
  let ?la = "join_tab [''1'', ''a'', ''5'']" and ?lb = "join_tab [''1'', ''a'', ''3'']"
  have h1: "roles_ok ?M" by code_simp
  have h2: "distinct (sums ?M)" by simp
  have h3: "[] \<notin> set [?la]" and h4: "[] \<notin> set [?lb]" by simp_all
  have h5: "keyed_run ?M [?la]" and h6: "keyed_run ?M [?lb]" by code_simp+
  have h7: "sorted_run ?M [?la]" and h8: "sorted_run ?M [?lb]" by code_simp+
  have h9: "0 < length [?la]" and h10: "0 < length [?lb]" by simp_all
  have c: "compare_fields ?M (split_tab ?la) (split_tab ?lb) = Inr 0" by code_simp
  have h11: "\<forall>i'<length [?la]. \<forall>j'<length [?lb].
      (compare_fields ?M (split_tab ([?la] ! i')) (split_tab ([?lb] ! j')) = Inr 0) = (i' = 0 \<and> j' = 0)"
    using c by simp
  have h12: "\<forall>p\<in>set (sums ?M). nat p < length (split_tab ([?la] ! 0)) \<and>
           py_int (field (split_tab ([?la] ! 0)) p) \<noteq> None \<and>
           py_int (field (split_tab ([?lb] ! 0)) p) \<noteq> None"
    by code_simp
  have out: "do_merge ?M [?la] [?lb] [] = (None, [join_tab [''1'', ''a'', ''8'']])"
    by code_simp
  have v: "int_field (split_tab ([?la] ! 0)) (int 2) + int_field (split_tab ([?lb] ! 0)) (int 2) = 8"
    by code_simp
  have m: "int 2 \<in> set (sums ?M)" by simp
  from do_merge_one_shared_key[OF h1 h2 h3 h4 h5 h6 h7 h8 h9 h10 h11 h12]
  obtain s where s: "filter (\<lambda>l. compare_fields ?M (split_tab l) (split_tab ([?la] ! 0)) = Inr 0)
             (snd (do_merge ?M [?la] [?lb] [])) = [join_tab s]"
    "length s = length (split_tab ([?la] ! 0))"
    "\<forall>p<length s.
              if int p \<in> set (sums ?M)
              then s ! p = py_str (int_field (split_tab ([?la] ! 0)) (int p) +
                                   int_field (split_tab ([?lb] ! 0)) (int p)) \<and>
                   py_int (s ! p) = Some (int_field (split_tab ([?la] ! 0)) (int p) +
                                          int_field (split_tab ([?lb] ! 0)) (int p))
              else s ! p = split_tab ([?la] ! 0) ! p"
    by blast
  have "length (split_tab ([?la] ! 0)) = 3" by code_simp
  with s(2) have "2 < length s" by simp
  with s(3) m have "py_int (s ! 2) = Some (int_field (split_tab ([?la] ! 0)) (int 2) +
                                          int_field (split_tab ([?lb] ! 0)) (int 2))"
    by (metis (no_types, lifting))
  with v have "py_int (s ! 2) = Some 8" by simp
  with s(1) h1 h2 h3 h4 h5 h6 h7 h8 c out show ?thesis by blast
qed

theorem do_merge_one_shared_key_counterexample:
  "sorted_run \<lparr>intkeys = [0], strkeys = [], sums = [0]\<rparr> [''1''] \<and>
   keyed_run \<lparr>intkeys = [0], strkeys = [], sums = [0]\<rparr> [''1''] \<and>
   compare_fields \<lparr>intkeys = [0], strkeys = [], sums = [0]\<rparr>
     (split_tab ''1'') (split_tab ''1'') = Inr 0 \<and>
   do_merge \<lparr>intkeys = [0], strkeys = [], sums = [0]\<rparr> [''1''] [''1''] [] = (None, [''2'']) \<and>
   compare_fields \<lparr>intkeys = [0], strkeys = [], sums = [0]\<rparr>
     (split_tab ''2'') (split_tab ''1'') = Inr 1 \<and>
   sorted_run \<lparr>intkeys = [0], strkeys = [1], sums = [2, 2]\<rparr> [join_tab [''1'', ''a'', ''5'']] \<and>
   sorted_run \<lparr>intkeys = [0], strkeys = [1], sums = [2, 2]\<rparr> [join_tab [''1'', ''a'', ''3'']] \<and>
   compare_fields \<lparr>intkeys = [0], strkeys = [1], sums = [2, 2]\<rparr>
     [''1'', ''a'', ''5''] [''1'', ''a'', ''3''] = Inr 0 \<and>
   do_merge \<lparr>intkeys = [0], strkeys = [1], sums = [2, 2]\<rparr>
     [join_tab [''1'', ''a'', ''5'']] [join_tab [''1'', ''a'', ''3'']] [] =
     (None, [join_tab [''1'', ''a'', ''11'']])"
  by code_simp

section \<open>The batch folder\<close>

text \<open>
  C2.  With \<open>count = 1\<close> the batch folder fetches and merges no partition and returns
  \<open>None\<close>, whatever \<open>startrow\<close> and \<open>maxid\<close> are: the test \<open>index >= count\<close> before the
  loop holds at once, as \<open>index\<close> starts from 1.
\<close>

theorem dump_merge_batch_count_one:
  "dump_merge_batch D W 1 startrow maxid merge_into_path verbose dryrun tr =
     (Inr None, tr @ (if \<not> dryrun then [CreateEmptyFile merge_into_path] else []))"
  by (simp add: dump_merge_batch_def)

lemma batch_loop_exit:
  "\<not> (startrow < maxid \<and> index < cnt) \<Longrightarrow>
   batch_loop D W cnt maxid p verbose dryrun startrow index tr = (Inr (startrow, index), tr)"
  by (subst batch_loop.simps) auto

lemma batch_loop_step:
  "startrow < maxid \<Longrightarrow> index < cnt \<Longrightarrow>
   batch_loop D W cnt maxid p verbose dryrun startrow index tr =
     (case batch_step D W p verbose dryrun startrow tr of
        (Inl e, tr1) \<Rightarrow> (Inl e, tr1)
      | (Inr u, tr1) \<Rightarrow>
          batch_loop D W cnt maxid p verbose dryrun (startrow + batchsize D) (index + 1) tr1)"
  by (subst batch_loop.simps) simp

lemma batch_step_dry:
  "batch_step D W p verbose True startrow tr =
     (Inr (), tr @
        [Print [''Would run:'',
                sql_command_string (build_sql_command W
                  (dump_query startrow (startrow + batchsize D))
                  (gzip D @ '' > '' @ dumped_path D))],
         Print [''would run command:'', merge_command D p (dumped_path D) (merged_path D)]])"
  by (simp add: batch_step_def do_one_query_def MergeAdder_merge_def Let_def)

lemma dump_merge_batch_two:
  assumes "1 < maxid"
  shows "dump_merge_batch D W 2 1 maxid merge_into_path verbose dryrun tr =
        (case batch_step D W merge_into_path verbose dryrun 1
                (tr @ (if \<not> dryrun then [CreateEmptyFile merge_into_path] else [])) of
           (Inl e, tr1) \<Rightarrow> (Inl e, tr1)
         | (Inr u, tr1) \<Rightarrow>
             (Inr (Some (1 + batchsize D)),
              tr1 @ (if \<not> dryrun then [Unlink (dumped_path D)] else [])))"
proof -
  have "batch_loop D W 2 maxid merge_into_path verbose dryrun (1 + batchsize D) 2 tr1 =
      (Inr (1 + batchsize D, 2), tr1)" for tr1
    by (rule batch_loop_exit) simp
  with assms show ?thesis
    by (simp add: dump_merge_batch_def batch_loop_step split: prod.splits sum.splits)
qed

text \<open>
  C3, as amended.  With \<open>count = 2\<close> and \<open>startrow = 1\<close>, when one partition covers
  the range (\<open>1 < maxid \<le> 1 + batchsize\<close>), the batch folder runs the body of its loop
  once and returns the advanced cursor \<open>1 + batchsize\<close>, not \<open>None\<close> (or it ends with
  the failure of that one step); when \<open>maxid \<le> 1\<close> it returns \<open>None\<close> and fetches
  nothing.
\<close>

theorem dump_merge_batch_count_two:
  "(1 < maxid \<and> maxid \<le> 1 + batchsize D \<longrightarrow>
      dump_merge_batch D W 2 1 maxid merge_into_path verbose dryrun tr =
        (case batch_step D W merge_into_path verbose dryrun 1
                (tr @ (if \<not> dryrun then [CreateEmptyFile merge_into_path] else [])) of
           (Inl e, tr1) \<Rightarrow> (Inl e, tr1)
         | (Inr u, tr1) \<Rightarrow>
             (Inr (Some (1 + batchsize D)),
              tr1 @ (if \<not> dryrun then [Unlink (dumped_path D)] else [])))) \<and>
   (maxid \<le> 1 \<longrightarrow>
      dump_merge_batch D W 2 1 maxid merge_into_path verbose dryrun tr =
        (Inr None, tr @ (if \<not> dryrun then [CreateEmptyFile merge_into_path] else [])))"
  by (simp add: dump_merge_batch_two) (simp add: dump_merge_batch_def)

theorem dump_merge_batch_count_two_witness:
  "(1::int) < 10 \<and> (10::int) \<le> 1 + batchsize example_dumper \<and>
   dump_merge_batch example_dumper example_world 2 1 10 ''/tmp/x'' False True [] =
     (Inr (Some (1 + batchsize example_dumper)),
      [Print [''Would run:'',
              sql_command_string (build_sql_command example_world
                (dump_query 1 (1 + batchsize example_dumper))
                (gzip example_dumper @ '' > '' @ dumped_path example_dumper))],
       Print [''would run command:'',
              merge_command example_dumper ''/tmp/x'' (dumped_path example_dumper)
                (merged_path example_dumper)]]) \<and>
   (0::int) \<le> 1 \<and>
   dump_merge_batch example_dumper example_world 2 1 0 ''/tmp/x'' False True [] = (Inr None, [])"
  using dump_merge_batch_count_two[of 10 example_dumper example_world "''/tmp/x''" False True "[]"]
    dump_merge_batch_count_two[of 0 example_dumper example_world "''/tmp/x''" False True "[]"]
  by (simp add: batch_step_dry) (simp add: example_dumper_def)

theorem dump_merge_batch_count_two_counterexample:
  "1 + batchsize example_dumper \<ge> 10 \<and>
   dump_merge_batch example_dumper example_world 2 1 10 ''/tmp/x'' False True [] =
     (Inr (Some 1001),
      [Print [''Would run:'',
              sql_command_string (build_sql_command example_world
                (dump_query 1 1001)
                (gzip example_dumper @ '' > '' @ dumped_path example_dumper))],
       Print [''would run command:'',
              merge_command example_dumper ''/tmp/x'' (dumped_path example_dumper)
                (merged_path example_dumper)]])"
proof -
  have b: "batchsize example_dumper = 1000" by (simp add: example_dumper_def)
  have "(1::int) < 10" by simp
  from dump_merge_batch_two[OF this, of example_dumper example_world "''/tmp/x''" False True "[]"]
  show ?thesis
    by (simp add: batch_step_dry b)
qed

section \<open>A run follows the plan of the dry run\<close>

lemma commands_append [simp]: "commands (xs @ ys) = commands xs @ commands ys"
  by (simp add: commands_def)

lemma commands_Nil [simp]: "commands [] = []"
  by (simp add: commands_def)

lemma commands_simps [simp]:
  "commands [RunCommand c] = [c]"
  "commands [Print [''Would run:'', c]] = [c]"
  "commands [Print [''would run command:'', c]] = [c]"
  "commands [Print [''Running'', c]] = []"
  "commands [Print [''command to be run with no output: '', c]] = []"
  "commands [Print [x]] = []"
  "commands [Print [''starting dump-merge batch with row'', c]] = []"
  "commands [Print [''Max watchlist id:'', c]] = []"
  "commands [Print [a, b, c, d]] = []"
  "commands [CreateEmptyFile p] = []"
  "commands [Move p q] = []"
  "commands [Unlink p] = []"
  "commands [RunSql q] = []"
  by (simp_all add: commands_def effect_commands_def)

lemma commands_Cons: "commands (e # es) = commands [e] @ commands es"
  by (simp add: commands_def)

lemma followsI:
  "run = (Inr a, tr @ X) \<Longrightarrow> fst plan = Inr a \<Longrightarrow> commands X = commands (snd plan) \<Longrightarrow>
   (dryrun \<Longrightarrow> \<forall>e\<in>set X. is_print e) \<Longrightarrow> follows dryrun tr run plan"
  unfolding follows_def by blast

lemma run_without_output_ok:
  "all_succeed W \<Longrightarrow>
   run_without_output W c verbose tr =
     (Inr (), tr @ (if verbose then [Print [''command to be run with no output: '', c]] else [])
                @ [RunCommand c])"
  by (simp add: run_without_output_def all_succeed_def Let_def)

lemma do_one_query_follows:
  assumes "dryrun \<or> all_succeed W"
  shows "follows dryrun tr (do_one_query D W q outpath verbose dryrun tr)
           (do_one_query D W q outpath False True [])"
proof (cases dryrun)
  case True
  then show ?thesis
    by (intro followsI[where X = "[Print [''Would run:'',
         sql_command_string (build_sql_command W q (gzip D @ '' > '' @ outpath))]]"])
       (simp_all add: do_one_query_def Let_def is_print_def)
next
  case False
  with assms have "all_succeed W" by simp
  with False show ?thesis
    by (intro followsI[where X = "(if verbose then [Print [''Running'',
         sql_command_string (build_sql_command W q (gzip D @ '' > '' @ outpath))]] else []) @
         (if verbose then [Print [''command to be run with no output: '',
         sql_command_string (build_sql_command W q (gzip D @ '' > '' @ outpath))]] else []) @
         [RunCommand (sql_command_string (build_sql_command W q (gzip D @ '' > '' @ outpath)))]"])
       (simp_all add: do_one_query_def Let_def run_without_output_ok)
qed

lemma MergeAdder_merge_follows:
  assumes "dryrun \<or> all_succeed W"
  shows "follows dryrun tr (MergeAdder_merge D W a b c verbose dryrun tr)
           (MergeAdder_merge D W a b c False True [])"
proof (cases dryrun)
  case True
  then show ?thesis
    by (intro followsI[where X = "[Print [''would run command:'', merge_command D a b c]]"])
       (simp_all add: MergeAdder_merge_def Let_def is_print_def)
next
  case False
  with assms have "all_succeed W" by simp
  with False show ?thesis
    by (intro followsI[where X = "(if verbose then [Print [''command to be run with no output: '',
         merge_command D a b c]] else []) @ [RunCommand (merge_command D a b c)]"])
       (simp_all add: MergeAdder_merge_def Let_def run_without_output_ok)
qed


lemma followsE:
  assumes "follows dryrun tr run plan"
  obtains X a where "run = (Inr a, tr @ X)" "fst plan = Inr a" "commands X = commands (snd plan)"
    "dryrun \<longrightarrow> (\<forall>e\<in>set X. is_print e)"
  using assms unfolding follows_def by blast

lemma batch_step_follows:
  assumes "dryrun \<or> all_succeed W"
  shows "follows dryrun tr (batch_step D W p verbose dryrun startrow tr)
           (batch_step D W p False True startrow [])"
proof -
  let ?q = "dump_query startrow (startrow + batchsize D)"
  let ?qc = "sql_command_string (build_sql_command W ?q (gzip D @ '' > '' @ dumped_path D))"
  let ?mc = "merge_command D p (dumped_path D) (merged_path D)"
  have plan: "batch_step D W p False True startrow [] =
      (Inr (), [Print [''Would run:'', ?qc], Print [''would run command:'', ?mc]])"
    using batch_step_dry[of D W p False startrow "[]"] by simp
  have pq: "do_one_query D W ?q (dumped_path D) False True [] = (Inr (), [Print [''Would run:'', ?qc]])"
    by (simp add: do_one_query_def Let_def)
  have pm: "MergeAdder_merge D W p (dumped_path D) (merged_path D) False True [] =
      (Inr (), [Print [''would run command:'', ?mc]])"
    by (simp add: MergeAdder_merge_def Let_def)
  from do_one_query_follows[OF assms, of tr D ?q "dumped_path D" verbose]
  obtain X1 where q: "do_one_query D W ?q (dumped_path D) verbose dryrun tr = (Inr (), tr @ X1)"
    "commands X1 = [?qc]" "dryrun \<longrightarrow> (\<forall>e\<in>set X1. is_print e)"
    unfolding pq by (elim followsE) simp
  from MergeAdder_merge_follows[OF assms, of "tr @ X1" D p "dumped_path D" "merged_path D" verbose]
  obtain X2 where m: "MergeAdder_merge D W p (dumped_path D) (merged_path D) verbose dryrun (tr @ X1) =
      (Inr (), (tr @ X1) @ X2)"
    "commands X2 = [?mc]" "dryrun \<longrightarrow> (\<forall>e\<in>set X2. is_print e)"
    unfolding pm by (elim followsE) simp
  let ?X = "X1 @ X2 @ (if \<not> dryrun then [Move (merged_path D) p] else [])"
  have "batch_step D W p verbose dryrun startrow tr = (Inr (), tr @ ?X)"
    by (simp add: batch_step_def Let_def q(1) m(1))
  moreover have "commands ?X = commands (snd (batch_step D W p False True startrow []))"
    unfolding plan using q(2) m(2) by (simp add: commands_Cons[of "Print _" "[_]"])
  moreover have "dryrun \<Longrightarrow> \<forall>e\<in>set ?X. is_print e"
    using q(3) m(3) by auto
  ultimately show ?thesis
    by (intro followsI[where X = ?X and a = "()"]) (simp_all add: plan)
qed

lemma batch_loop_follows:
  "dryrun \<or> all_succeed W \<Longrightarrow>
   follows dryrun tr (batch_loop D W cnt maxid p verbose dryrun startrow index tr)
     (batch_loop D W cnt maxid p False True startrow index [])"
proof (induction n \<equiv> "nat (cnt - index)" arbitrary: index startrow tr verbose dryrun
    rule: less_induct)
  case less
  note ok = less.prems
  show ?case
  proof (cases "startrow < maxid \<and> index < cnt")
    case False
    then show ?thesis
      by (intro followsI[where X = "[]" and a = "(startrow, index)"])
         (simp_all add: batch_loop_exit)
  next
    case True
    then have s: "startrow < maxid" and i: "index < cnt" by simp_all
    let ?s' = "startrow + batchsize D" and ?i' = "index + 1"
    have dec: "nat (cnt - ?i') < nat (cnt - index)" using i by simp
    obtain Y1 where y1: "batch_step D W p False True startrow [] = (Inr (), Y1)"
      using batch_step_dry[of D W p False startrow "[]"] by simp
    from batch_step_follows[OF ok, of tr D p verbose startrow]
    obtain X1 where x1: "batch_step D W p verbose dryrun startrow tr = (Inr (), tr @ X1)"
      "commands X1 = commands Y1" "dryrun \<longrightarrow> (\<forall>e\<in>set X1. is_print e)"
      unfolding y1 by (elim followsE) simp
    let ?plan' = "batch_loop D W cnt maxid p False True ?s' ?i' []"
    have "True \<or> all_succeed W" by simp
    from less.hyps[OF dec this, of Y1 False ?s']
    obtain Y2 a where y2: "batch_loop D W cnt maxid p False True ?s' ?i' Y1 = (Inr a, Y1 @ Y2)"
      "fst ?plan' = Inr a" "commands Y2 = commands (snd ?plan')"
      by (elim followsE) simp
    from less.hyps[OF dec ok, of "tr @ X1" verbose ?s']
    obtain X2 a' where x2: "batch_loop D W cnt maxid p verbose dryrun ?s' ?i' (tr @ X1) =
        (Inr a', (tr @ X1) @ X2)"
      "fst ?plan' = Inr a'" "commands X2 = commands (snd ?plan')"
      "dryrun \<longrightarrow> (\<forall>e\<in>set X2. is_print e)"
      by (elim followsE) simp
    from y2(2) x2(2) have aa: "a' = a" by simp
    have plan: "batch_loop D W cnt maxid p False True startrow index [] = (Inr a, Y1 @ Y2)"
      using s i y1 y2(1) by (simp add: batch_loop_step)
    have run: "batch_loop D W cnt maxid p verbose dryrun startrow index tr =
        (Inr a, tr @ X1 @ X2)"
      using s i x1(1) x2(1) aa by (simp add: batch_loop_step)
    show ?thesis
      using run plan x1(2,3) x2(3,4) y2(3)
      by (intro followsI[where X = "X1 @ X2" and a = a]) auto
  qed
qed


lemma dump_merge_batch_follows:
  assumes "dryrun \<or> all_succeed W"
  shows "follows dryrun tr (dump_merge_batch D W cnt startrow maxid p verbose dryrun tr)
           (dump_merge_batch D W cnt startrow maxid p False True [])"
proof (cases "startrow \<ge> maxid \<or> 1 \<ge> cnt")
  case True
  then show ?thesis
    by (intro followsI[where X = "if \<not> dryrun then [CreateEmptyFile p] else []" and a = None])
       (auto simp: dump_merge_batch_def)
next
  case False
  let ?C = "if \<not> dryrun then [CreateEmptyFile p] else []"
  let ?plan = "batch_loop D W cnt maxid p False True startrow 1 []"
  from batch_loop_follows[OF assms, of "tr @ ?C" D cnt maxid p verbose startrow 1]
  obtain X a where x: "batch_loop D W cnt maxid p verbose dryrun startrow 1 (tr @ ?C) =
      (Inr a, (tr @ ?C) @ X)" "fst ?plan = Inr a" "commands X = commands (snd ?plan)"
    "dryrun \<longrightarrow> (\<forall>e\<in>set X. is_print e)"
    by (elim followsE) simp
  obtain Y where y: "?plan = (Inr a, Y)" using x(2) by (cases ?plan) simp
  obtain s' i' where a: "a = (s', i')" by (cases a)
  have plan: "dump_merge_batch D W cnt startrow maxid p False True [] = (Inr (Some s'), Y)"
    using False y a by (simp add: dump_merge_batch_def)
  let ?X = "?C @ X @ (if \<not> dryrun then [Unlink (dumped_path D)] else [])"
  have run: "dump_merge_batch D W cnt startrow maxid p verbose dryrun tr = (Inr (Some s'), tr @ ?X)"
    using False x(1) a by (simp add: dump_merge_batch_def)
  have c: "commands ?X = commands Y" using x(3) y by simp
  show ?thesis
    using run plan c x(4)
    by (intro followsI[where X = ?X and a = "Some s'"]) auto
qed

lemma watch_step_follows:
  assumes "dryrun \<or> all_succeed W"
  shows "follows dryrun tr (watch_step D W fbc maxid verbose dryrun startrow tr)
           (watch_step D W fbc maxid False True startrow [])"
proof -
  let ?P = "if verbose then [Print [''starting dump-merge batch with row'', py_str startrow]] else []"
  let ?bplan = "dump_merge_batch D W fbc startrow maxid (batch_merge_into_path D) False True []"
  from dump_merge_batch_follows[OF assms, of "tr @ ?P" D fbc startrow maxid
      "batch_merge_into_path D" verbose]
  obtain X1 sr where x1: "dump_merge_batch D W fbc startrow maxid (batch_merge_into_path D)
      verbose dryrun (tr @ ?P) = (Inr sr, (tr @ ?P) @ X1)"
    "fst ?bplan = Inr sr" "commands X1 = commands (snd ?bplan)"
    "dryrun \<longrightarrow> (\<forall>e\<in>set X1. is_print e)"
    by (elim followsE) simp
  obtain Y1 where y1: "?bplan = (Inr sr, Y1)" using x1(2) by (cases ?bplan) simp
  show ?thesis
  proof (cases "truthy sr")
    case False
    have plan: "watch_step D W fbc maxid False True startrow [] = (Inr sr, Y1)"
      using False y1 by (simp add: watch_step_def)
    have run: "watch_step D W fbc maxid verbose dryrun startrow tr = (Inr sr, tr @ ?P @ X1)"
      using False x1(1) by (simp add: watch_step_def)
    show ?thesis
      using run plan x1(3,4) y1
      by (intro followsI[where X = "?P @ X1" and a = sr]) (auto simp: is_print_def)
  next
    case True
    let ?Q = "if verbose then [Print [''merging results of dump-merge batch'']] else []"
    let ?mc = "merge_command D (all_merge_into_path D) (batch_merge_into_path D) (merged_path D)"
    have pm: "MergeAdder_merge D W (all_merge_into_path D) (batch_merge_into_path D) (merged_path D)
        False True Y1 = (Inr (), Y1 @ [Print [''would run command:'', ?mc]])"
      by (simp add: MergeAdder_merge_def Let_def)
    have pm0: "MergeAdder_merge D W (all_merge_into_path D) (batch_merge_into_path D) (merged_path D)
        False True [] = (Inr (), [Print [''would run command:'', ?mc]])"
      by (simp add: MergeAdder_merge_def Let_def)
    from MergeAdder_merge_follows[OF assms, of "tr @ ?P @ X1 @ ?Q" D "all_merge_into_path D"
        "batch_merge_into_path D" "merged_path D" verbose]
    obtain X2 where x2: "MergeAdder_merge D W (all_merge_into_path D) (batch_merge_into_path D)
        (merged_path D) verbose dryrun (tr @ ?P @ X1 @ ?Q) = (Inr (), (tr @ ?P @ X1 @ ?Q) @ X2)"
      "commands X2 = [?mc]" "dryrun \<longrightarrow> (\<forall>e\<in>set X2. is_print e)"
      unfolding pm0 by (elim followsE) simp
    let ?M = "if \<not> dryrun then [Move (merged_path D) (all_merge_into_path D)] else []"
    have plan: "watch_step D W fbc maxid False True startrow [] =
        (Inr sr, Y1 @ [Print [''would run command:'', ?mc]])"
      using True y1 pm by (simp add: watch_step_def)
    have run: "watch_step D W fbc maxid verbose dryrun startrow tr =
        (Inr sr, tr @ ?P @ X1 @ ?Q @ X2 @ ?M)"
      using True x1(1) x2(1) by (simp add: watch_step_def)
    have c: "commands (?P @ X1 @ ?Q @ X2 @ ?M) = commands (Y1 @ [Print [''would run command:'', ?mc]])"
      using x1(3) x2(2) y1 by simp
    show ?thesis
      using run plan c x1(4) x2(3)
      by (intro followsI[where X = "?P @ X1 @ ?Q @ X2 @ ?M" and a = sr]) (auto simp: is_print_def)
  qed
qed

section \<open>The loop of dump_watchlist\<close>

lemma watch_loop_exit:
  "\<not> (truthy sr \<and> the sr < maxid) \<Longrightarrow>
   watch_loop fuel D W fbc maxid verbose dryrun sr tr = Some (Inr (), tr)"
  by (cases fuel) auto

lemma watch_loop_follows:
  "dryrun \<or> all_succeed W \<Longrightarrow>
   (case watch_loop fuel D W fbc maxid False True sr [] of
      None \<Rightarrow> watch_loop fuel D W fbc maxid verbose dryrun sr tr = None
    | Some plan \<Rightarrow>
        (\<exists>run. watch_loop fuel D W fbc maxid verbose dryrun sr tr = Some run \<and>
               follows dryrun tr run plan))"
proof (induction fuel arbitrary: sr tr verbose dryrun)
  case 0
  show ?case
  proof (cases "truthy sr \<and> the sr < maxid")
    case True
    then show ?thesis by simp
  next
    case False
    then show ?thesis
      by (auto intro!: followsI[where X = "[]" and a = "()"])
  qed
next
  case (Suc fuel)
  note ok = Suc.prems
  show ?case
  proof (cases "truthy sr \<and> the sr < maxid")
    case False
    then show ?thesis
      by (auto intro!: followsI[where X = "[]" and a = "()"])
  next
    case True
    let ?s = "the sr"
    let ?splan = "watch_step D W fbc maxid False True ?s []"
    from watch_step_follows[OF ok, of tr D fbc maxid verbose ?s]
    obtain X1 sr' where x1: "watch_step D W fbc maxid verbose dryrun ?s tr = (Inr sr', tr @ X1)"
      "fst ?splan = Inr sr'" "commands X1 = commands (snd ?splan)"
      "dryrun \<longrightarrow> (\<forall>e\<in>set X1. is_print e)"
      by (elim followsE) simp
    obtain Y1 where y1: "?splan = (Inr sr', Y1)" using x1(2) by (cases ?splan) simp
    have run: "watch_loop (Suc fuel) D W fbc maxid verbose dryrun sr tr =
        watch_loop fuel D W fbc maxid verbose dryrun sr' (tr @ X1)"
      using True x1(1) by simp
    have plan: "watch_loop (Suc fuel) D W fbc maxid False True sr [] =
        watch_loop fuel D W fbc maxid False True sr' Y1"
      using True y1 by simp
    have t: "True \<or> all_succeed W" by simp
    show ?thesis
    proof (cases "watch_loop fuel D W fbc maxid False True sr' []")
      case None
      with Suc.IH[OF t, where sr = sr' and verbose = False and tr = Y1] Suc.IH[OF ok, where sr = sr' and verbose = verbose and tr = "tr @ X1"]
      show ?thesis unfolding run plan by simp
    next
      case (Some plan')
      from Suc.IH[OF t, where sr = sr' and verbose = False and tr = Y1] Some
      obtain prun where p: "watch_loop fuel D W fbc maxid False True sr' Y1 = Some prun"
        "follows True Y1 prun plan'" by auto
      from Suc.IH[OF ok, where sr = sr' and verbose = verbose and tr = "tr @ X1"] Some
      obtain rrun where r: "watch_loop fuel D W fbc maxid verbose dryrun sr' (tr @ X1) = Some rrun"
        "follows dryrun (tr @ X1) rrun plan'" by auto
      from p(2) obtain Y2 a where y2: "prun = (Inr a, Y1 @ Y2)" "fst plan' = Inr a"
        "commands Y2 = commands (snd plan')"
        by (elim followsE)
      from r(2) obtain X2 a' where x2: "rrun = (Inr a', (tr @ X1) @ X2)" "fst plan' = Inr a'"
        "commands X2 = commands (snd plan')" "dryrun \<longrightarrow> (\<forall>e\<in>set X2. is_print e)"
        by (elim followsE)
      have "follows dryrun tr rrun prun"
        using x2 y2 x1(3,4) y1
        by (intro followsI[where X = "X1 @ X2" and a = a]) auto
      with r(1) p(1) show ?thesis unfolding run plan by simp
    qed
  qed
qed

lemma batch_loop_dry_advances:
  "0 \<le> batchsize D \<Longrightarrow>
   \<exists>s' i' Y. batch_loop D W cnt maxid p verbose True startrow index tr = (Inr (s', i'), Y) \<and>
     startrow \<le> s' \<and> (0 < batchsize D \<and> startrow < maxid \<and> index < cnt \<longrightarrow> startrow < s')"
proof (induction n \<equiv> "nat (cnt - index)" arbitrary: index startrow tr rule: less_induct)
  case less
  show ?case
  proof (cases "startrow < maxid \<and> index < cnt")
    case False
    then show ?thesis by (simp add: batch_loop_exit)
  next
    case True
    then have s: "startrow < maxid" and i: "index < cnt" by simp_all
    have dec: "nat (cnt - (index + 1)) < nat (cnt - index)" using i by simp
    obtain Y1 where y1: "batch_step D W p verbose True startrow tr = (Inr (), Y1)"
      using batch_step_dry[of D W p verbose startrow tr] by simp
    from less.hyps[OF dec less.prems, of "startrow + batchsize D" Y1]
    obtain s' i' Y where r: "batch_loop D W cnt maxid p verbose True (startrow + batchsize D)
        (index + 1) Y1 = (Inr (s', i'), Y)" "startrow + batchsize D \<le> s'"
      by blast
    have "batch_loop D W cnt maxid p verbose True startrow index tr = (Inr (s', i'), Y)"
      using s i y1 r(1) by (simp add: batch_loop_step)
    with r(2) less.prems show ?thesis by auto
  qed
qed

lemma dump_merge_batch_dry_advances:
  assumes "0 < batchsize D"
  shows "\<exists>sr Y. dump_merge_batch D W cnt startrow maxid p verbose True tr = (Inr sr, Y) \<and>
           (sr = None \<or> (\<exists>s'. sr = Some s' \<and> startrow < s'))"
proof (cases "startrow \<ge> maxid \<or> 1 \<ge> cnt")
  case True
  then show ?thesis by (auto simp: dump_merge_batch_def)
next
  case False
  from assms have "0 \<le> batchsize D" by simp
  from batch_loop_dry_advances[OF this, of W cnt maxid p verbose startrow 1 tr] assms False
  obtain s' i' Y where "batch_loop D W cnt maxid p verbose True startrow 1 tr = (Inr (s', i'), Y)"
    "startrow < s'" by auto
  with False show ?thesis by (simp add: dump_merge_batch_def)
qed

lemma watch_step_dry_advances:
  assumes "0 < batchsize D"
  shows "\<exists>sr Y. watch_step D W fbc maxid verbose True startrow tr = (Inr sr, Y) \<and>
           (sr = None \<or> (\<exists>s'. sr = Some s' \<and> startrow < s'))"
proof -
  let ?tr1 = "tr @ (if verbose then [Print [''starting dump-merge batch with row'', py_str startrow]]
                    else [])"
  from dump_merge_batch_dry_advances[OF assms, of W fbc startrow maxid "batch_merge_into_path D"
      verbose ?tr1]
  obtain sr Y where b: "dump_merge_batch D W fbc startrow maxid (batch_merge_into_path D)
      verbose True ?tr1 = (Inr sr, Y)" "sr = None \<or> (\<exists>s'. sr = Some s' \<and> startrow < s')"
    by blast
  then show ?thesis
    by (auto simp: watch_step_def MergeAdder_merge_def Let_def)
qed

lemma watch_loop_dry_returns:
  assumes "0 < batchsize D"
  shows "(sr = None \<or> nat (maxid - the sr) \<le> fuel) \<Longrightarrow>
         watch_loop fuel D W fbc maxid verbose True sr tr \<noteq> None"
proof (induction fuel arbitrary: sr tr)
  case 0
  then have "\<not> (truthy sr \<and> the sr < maxid)" by (auto simp: truthy_def)
  from watch_loop_exit[OF this] show ?case by simp
next
  case (Suc fuel)
  show ?case
  proof (cases "truthy sr \<and> the sr < maxid")
    case False
    from watch_loop_exit[OF this] show ?thesis by simp
  next
    case True
    from watch_step_dry_advances[OF assms, of W fbc maxid verbose "the sr" tr]
    obtain sr' Y where w: "watch_step D W fbc maxid verbose True (the sr) tr = (Inr sr', Y)"
      "sr' = None \<or> (\<exists>s'. sr' = Some s' \<and> the sr < s')" by blast
    from True have "sr \<noteq> None" by (cases sr) (simp_all add: truthy_def)
    with Suc.prems have "nat (maxid - the sr) \<le> Suc fuel" by simp
    with w(2) True have "sr' = None \<or> nat (maxid - the sr') \<le> fuel" by auto
    from Suc.IH[OF this, of Y] True w(1) show ?thesis by simp
  qed
qed

section \<open>Dry-run mode\<close>

lemma get_max_id_trace:
  "\<exists>res. get_max_id W ''wl_id'' ''watchlist'' tr =
           (res, tr @ [RunSql ''select MAX(wl_id) from watchlist;''])"
  by (auto simp: get_max_id_def Let_def split: option.splits list.splits)

lemma dump_watchlist_dry_trace:
  assumes "dump_watchlist fuel D W fbc out_path verbose True [] = Some (r, tr)"
  shows "(\<exists>ps. tr = RunSql ''select MAX(wl_id) from watchlist;'' # ps \<and> (\<forall>e\<in>set ps. is_print e)) \<and>
         (all_succeed W \<longrightarrow>
            (\<exists>tr'. dump_watchlist fuel D W fbc out_path verbose' False [] = Some (r, tr') \<and>
                   commands tr' = commands tr))"
proof -
  let ?q = "RunSql ''select MAX(wl_id) from watchlist;''"
  obtain res where g: "get_max_id W ''wl_id'' ''watchlist'' [] = (res, [?q])"
    using get_max_id_trace[of W "[]"] by auto
  show ?thesis
  proof (cases res)
    case (Inl e)
    with g assms have "r = Inl e" "tr = [?q]"
      by (simp_all add: dump_watchlist_def)
    with g Inl show ?thesis
      by (simp add: dump_watchlist_def)
  next
    case (Inr maxid)
    show ?thesis
    proof (cases "truthy maxid")
      case False
      with g Inr assms have "r = Inl Exit1"
        "tr = [?q, Print [''Failed to get max watchlist id, bailing!'']]"
        by (simp_all add: dump_watchlist_def)
      with g Inr False show ?thesis
        by (simp add: dump_watchlist_def is_print_def)
    next
      case True
      let ?m = "the maxid"
      let ?pm = "Print [''Max watchlist id:'', py_str ?m]"
      let ?tr3 = "[?q, ?pm]"
      let ?tr3' = "[?q] @ (if verbose' then [?pm] else []) @ [CreateEmptyFile (all_merge_into_path D)]"
      let ?plan = "watch_loop fuel D W fbc ?m False True (Some 1) []"
      have d: "dump_watchlist fuel D W fbc out_path verbose True [] =
          (case watch_loop fuel D W fbc ?m verbose True (Some 1) ?tr3 of
             None \<Rightarrow> None
           | Some (Inl e, tr4) \<Rightarrow> Some (Inl e, tr4)
           | Some (Inr u, tr4) \<Rightarrow>
               Some (Inr (), tr4 @ [Print [''output would be moved from'',
                                          all_merge_into_path D, ''to'', out_path]]))"
        using g Inr True
        by (simp add: dump_watchlist_def split: option.splits prod.splits sum.splits)
      have t: "True \<or> all_succeed W" by simp
      from watch_loop_follows[OF t, where fuel = fuel and D = D and fbc = fbc and maxid = ?m
          and sr = "Some 1" and verbose = verbose and tr = ?tr3] d assms
      obtain plan rund where p: "?plan = Some plan"
        "watch_loop fuel D W fbc ?m verbose True (Some 1) ?tr3 = Some rund"
        "follows True ?tr3 rund plan"
        by (cases ?plan) auto
      from p(3) obtain Xd where xd: "rund = (Inr (), ?tr3 @ Xd)"
        "commands Xd = commands (snd plan)" "\<forall>e\<in>set Xd. is_print e"
        by (elim followsE) simp
      let ?last = "Print [''output would be moved from'', all_merge_into_path D, ''to'', out_path]"
      from d assms p(2) xd(1) have r: "r = Inr ()" and tr: "tr = ?tr3 @ Xd @ [?last]"
        by simp_all
      have 1: "\<exists>ps. tr = ?q # ps \<and> (\<forall>e\<in>set ps. is_print e)"
        using tr xd(3) by (auto simp: is_print_def)
      have 2: "\<exists>tr'. dump_watchlist fuel D W fbc out_path verbose' False [] = Some (r, tr') \<and>
                   commands tr' = commands tr" if a: "all_succeed W"
      proof -
        from a have f: "False \<or> all_succeed W" by simp
        from watch_loop_follows[OF f, where fuel = fuel and D = D and fbc = fbc and maxid = ?m
            and sr = "Some 1" and verbose = verbose' and tr = ?tr3'] p(1)
        obtain runr where rr: "watch_loop fuel D W fbc ?m verbose' False (Some 1) ?tr3' = Some runr"
          "follows False ?tr3' runr plan" by auto
        from rr(2) obtain Xr where xr: "runr = (Inr (), ?tr3' @ Xr)"
          "commands Xr = commands (snd plan)"
          by (elim followsE) simp
        let ?end = "[Move (all_merge_into_path D) out_path] @
                    (if verbose' then [Print [''output available in'', out_path]] else [])"
        have "dump_watchlist fuel D W fbc out_path verbose' False [] =
            Some (Inr (), (?tr3' @ Xr) @ ?end)"
          using g Inr True rr(1) xr(1) by (simp add: dump_watchlist_def)
        moreover have "commands ((?tr3' @ Xr) @ ?end) = commands tr"
          unfolding tr using xr(2) xd(2)
          by (simp add: commands_def effect_commands_def)
        ultimately show ?thesis using r by blast
      qed
      from 1 2 show ?thesis by blast
    qed
  qed
qed

lemma dump_watchlist_dry_returns:
  assumes "0 < batchsize D"
  shows "\<exists>fuel. dump_watchlist fuel D W fbc out_path verbose True [] \<noteq> None"
proof -
  let ?q = "RunSql ''select MAX(wl_id) from watchlist;''"
  obtain res where g: "get_max_id W ''wl_id'' ''watchlist'' [] = (res, [?q])"
    using get_max_id_trace[of W "[]"] by auto
  show ?thesis
  proof (cases res)
    case (Inl e)
    with g show ?thesis by (simp add: dump_watchlist_def)
  next
    case (Inr maxid)
    show ?thesis
    proof (cases "truthy maxid")
      case False
      with g Inr show ?thesis by (simp add: dump_watchlist_def)
    next
      case True
      let ?m = "the maxid"
      let ?tr3 = "[?q, Print [''Max watchlist id:'', py_str ?m]]"
      have "watch_loop (nat (?m - 1)) D W fbc ?m verbose True (Some 1) ?tr3 \<noteq> None"
        by (rule watch_loop_dry_returns[OF assms]) simp
      then obtain e tr4 where "watch_loop (nat (?m - 1)) D W fbc ?m verbose True (Some 1) ?tr3 =
          Some (e, tr4)" by (cases "watch_loop (nat (?m - 1)) D W fbc ?m verbose True (Some 1) ?tr3") auto
      then have "dump_watchlist (nat (?m - 1)) D W fbc out_path verbose True [] \<noteq> None"
        using g Inr True by (cases e) (simp_all add: dump_watchlist_def)
      then show ?thesis by blast
    qed
  qed
qed

text \<open>
  C4, as amended.  A dry run of \<open>dump_watchlist\<close> that returns has sent one query to
  the database, the one for the maximum id, and has then only printed: it has created,
  moved and deleted no file and run no command.  It returns what a real run returns
  whose commands all succeed, and the commands that it has printed are the commands
  that the real run has run, in their order.  When the batch size is positive the dry
  run does return.
\<close>

theorem dump_watchlist_dry_run:
  "(dump_watchlist fuel D W file_batch_count out_path verbose True [] = Some (r, tr) \<longrightarrow>
      (\<exists>ps. tr = RunSql ''select MAX(wl_id) from watchlist;'' # ps \<and> (\<forall>e\<in>set ps. is_print e)) \<and>
      (all_succeed W \<longrightarrow>
         (\<exists>tr'. dump_watchlist fuel D W file_batch_count out_path verbose' False [] = Some (r, tr') \<and>
                commands tr' = commands tr))) \<and>
   (0 < batchsize D \<longrightarrow>
      (\<exists>fuel'. dump_watchlist fuel' D W file_batch_count out_path verbose True [] \<noteq> None))"
  using dump_watchlist_dry_trace[of fuel D W file_batch_count out_path verbose r tr verbose']
    dump_watchlist_dry_returns[of D W file_batch_count out_path verbose]
  by blast


theorem dump_watchlist_dry_run_witness:
  "dump_watchlist 5 example_dumper example_world 100 ''/out/watchlist.gz'' False True [] =
     Some (Inr (), snd (the (dump_watchlist 5 example_dumper example_world 100
                               ''/out/watchlist.gz'' False True []))) \<and>
   all_succeed example_world \<and> 0 < batchsize example_dumper \<and>
   (\<exists>ps. snd (the (dump_watchlist 5 example_dumper example_world 100
                      ''/out/watchlist.gz'' False True [])) =
           RunSql ''select MAX(wl_id) from watchlist;'' # ps \<and> (\<forall>e\<in>set ps. is_print e)) \<and>
   (\<exists>tr'. dump_watchlist 5 example_dumper example_world 100 ''/out/watchlist.gz'' True False [] =
            Some (Inr (), tr') \<and>
          commands tr' =
            commands (snd (the (dump_watchlist 5 example_dumper example_world 100
                                  ''/out/watchlist.gz'' False True [])))) \<and>
   (\<exists>fuel'. dump_watchlist fuel' example_dumper example_world 100 ''/out/watchlist.gz'' False True []
      \<noteq> None)"
proof -
  let ?dry = "dump_watchlist 5 example_dumper example_world 100 ''/out/watchlist.gz'' False True []"
  have n: "?dry \<noteq> None" by code_simp
  have f: "fst (the ?dry) = Inr ()" by code_simp
  from n f have h1: "?dry = Some (Inr (), snd (the ?dry))"
    by (cases ?dry) auto
  have h2: "all_succeed example_world"
    by (simp add: all_succeed_def example_world_def)
  have h3: "0 < batchsize example_dumper"
    by (simp add: example_dumper_def)
  from dump_watchlist_dry_run[of 5 example_dumper example_world 100 "''/out/watchlist.gz''" False
      "Inr ()" "snd (the ?dry)" True] h1 h2 h3
  show ?thesis by blast
qed

theorem dump_watchlist_dry_run_counterexample:
  "dump_watchlist 5 example_dumper example_world 100 ''/out/watchlist.gz'' False True [] \<noteq> None \<and>
   RunSql ''select MAX(wl_id) from watchlist;'' \<in>
     set (snd (the (dump_watchlist 5 example_dumper example_world 100
                      ''/out/watchlist.gz'' False True [])))"
  by code_simp

end
